theory Spec2Isabelle
  imports Complex_Main "HOL-Library.Sublist" "HOL-Library.Multiset" "HOL-Library.Product_Lexorder"
begin

section \<open>Text\<close>

text \<open>
  A Python \<open>str\<close> is a \<^typ>\<open>string\<close> whose characters are read as code points
  below 256 (Latin-1), which holds the Portuguese form texts \<open>app.py\<close> is written for.
  On that range the three character tests the program relies on are Python's own:
  \<open>str.isspace\<close> (used by \<open>\s\<close> and by \<open>strip\<close>), \<open>str.isalnum\<close> or an underscore
  (used by \<open>\w\<close>), and \<open>str.lower\<close>.
\<close>

definition is_space :: "char \<Rightarrow> bool" where
  "is_space c =
     (let n = (of_char c :: nat)
      in (9 \<le> n \<and> n \<le> 13) \<or> (28 \<le> n \<and> n \<le> 32) \<or> n = 133 \<or> n = 160)"

definition is_digit :: "char \<Rightarrow> bool" where
  "is_digit c = (let n = (of_char c :: nat) in 48 \<le> n \<and> n \<le> 57)"

definition is_alnum :: "char \<Rightarrow> bool" where
  "is_alnum c =
     (let n = (of_char c :: nat)
      in (48 \<le> n \<and> n \<le> 57) \<or> (65 \<le> n \<and> n \<le> 90) \<or> (97 \<le> n \<and> n \<le> 122)
         \<or> n = 170 \<or> n = 178 \<or> n = 179 \<or> n = 181 \<or> n = 185 \<or> n = 186
         \<or> (188 \<le> n \<and> n \<le> 190)
         \<or> (192 \<le> n \<and> n \<le> 214) \<or> (216 \<le> n \<and> n \<le> 246) \<or> 248 \<le> n)"

definition is_word :: "char \<Rightarrow> bool" where
  "is_word c = (is_alnum c \<or> c = CHR ''_'')"

definition is_upper :: "char \<Rightarrow> bool" where
  "is_upper c =
     (let n = (of_char c :: nat)
      in (65 \<le> n \<and> n \<le> 90) \<or> (192 \<le> n \<and> n \<le> 222 \<and> n \<noteq> 215))"

text \<open>Every upper-case letter below 256 is 32 below its lower-case form: bit 5 is set.\<close>

definition lower_char :: "char \<Rightarrow> char" where
  "lower_char c =
     (if is_upper c
      then (case c of Char b0 b1 b2 b3 b4 b5 b6 b7 \<Rightarrow> Char b0 b1 b2 b3 b4 True b6 b7)
      else c)"

definition py_lower :: "string \<Rightarrow> string" where
  "py_lower s = map lower_char s"

text \<open>\<open>sub in s\<close> on strings: \<open>sub\<close> occurs in \<open>s\<close> as a contiguous piece.\<close>

definition py_in :: "string \<Rightarrow> string \<Rightarrow> bool" where
  "py_in sub s = sublist sub s"

text \<open>\<open>s.strip()\<close>: white space is removed at both ends.\<close>

definition py_strip :: "string \<Rightarrow> string" where
  "py_strip s = rev (dropWhile is_space (rev (dropWhile is_space s)))"

text \<open>
  \<open>s.replace(old, new)\<close>: occurrences of \<open>old\<close> are replaced from the left, without
  overlap; an empty \<open>old\<close> puts \<open>new\<close> before every character and at the end.
\<close>

fun replace_from :: "string \<Rightarrow> string \<Rightarrow> string \<Rightarrow> string" where
  "replace_from old new [] = []"
| "replace_from old new (c # cs) =
     (if prefix old (c # cs)
      then new @ replace_from old new (drop (length old - 1) cs)
      else c # replace_from old new cs)"

definition py_replace :: "string \<Rightarrow> string \<Rightarrow> string \<Rightarrow> string" where
  "py_replace old new s =
     (if old = [] then new @ concat (map (\<lambda>c. c # new) s) else replace_from old new s)"

subsection \<open>Regular expressions\<close>

text \<open>
  The two patterns of \<open>app.py\<close> are built from character classes, literals and the
  greedy \<open>+\<close>. A pattern is a matcher in continuation style, as the backtracking engine
  of \<open>re\<close> runs it: it is tried at the front of the text, hands what it has not consumed
  to the rest of the pattern \<open>k\<close>, and the answer is the text left after the whole match.
  A greedy repetition takes as many characters as it can and gives them back one at a
  time while the rest of the pattern fails.
\<close>

type_synonym matcher = "string \<Rightarrow> string option"

fun star_bt :: "(char \<Rightarrow> bool) \<Rightarrow> matcher \<Rightarrow> matcher" where
  "star_bt p k [] = k []"
| "star_bt p k (c # cs) =
     (if p c
      then (case star_bt p k cs of Some r \<Rightarrow> Some r | None \<Rightarrow> k (c # cs))
      else k (c # cs))"

definition plus_bt :: "(char \<Rightarrow> bool) \<Rightarrow> matcher \<Rightarrow> matcher" where
  "plus_bt p k s = (case s of [] \<Rightarrow> None | c # cs \<Rightarrow> if p c then star_bt p k cs else None)"

definition lit :: "char \<Rightarrow> matcher \<Rightarrow> matcher" where
  "lit a k s = (case s of [] \<Rightarrow> None | c # cs \<Rightarrow> if c = a then k cs else None)"

text \<open>\<open>[\w\.-]\<close>\<close>

definition email_class :: "char \<Rightarrow> bool" where
  "email_class c = (is_word c \<or> c = CHR ''.'' \<or> c = CHR ''-'')"

text \<open>\<open>EMAIL_RE = re.compile(r"[\w\.-]+@[\w\.-]+\.\w+")\<close>\<close>

definition EMAIL_RE :: matcher where
  "EMAIL_RE =
     plus_bt email_class (lit CHR ''@'' (plus_bt email_class (lit CHR ''.'' (plus_bt is_word Some))))"

text \<open>\<open>WHITESPACE_RE = re.compile(r"\s+")\<close>\<close>

definition WHITESPACE_RE :: matcher where
  "WHITESPACE_RE = plus_bt is_space Some"

text \<open>
  \<open>pattern.sub(repl, s)\<close>: the text is scanned from the left; where the pattern matches,
  \<open>repl\<close> is written and the scan goes on after the match, elsewhere the character is
  kept. An empty match writes \<open>repl\<close> and keeps the character.
\<close>

function re_sub :: "matcher \<Rightarrow> string \<Rightarrow> string \<Rightarrow> string" where
  "re_sub m repl [] = (case m [] of Some r \<Rightarrow> repl | None \<Rightarrow> [])"
| "re_sub m repl (c # cs) =
     (case m (c # cs) of
        None \<Rightarrow> c # re_sub m repl cs
      | Some rest \<Rightarrow>
          if length rest \<le> length cs then repl @ re_sub m repl rest
          else repl @ c # re_sub m repl cs)"
  by pat_completeness auto
termination
  by (relation "measure (\<lambda>(m, repl, s). length s)") auto

declare re_sub.simps [simp del]

text \<open>\<open>pattern.search(s) is not None\<close>\<close>

fun re_search :: "matcher \<Rightarrow> string \<Rightarrow> bool" where
  "re_search m [] = (m [] \<noteq> None)"
| "re_search m (c # cs) = (m (c # cs) \<noteq> None \<or> re_search m cs)"

subsection \<open>Cells\<close>

text \<open>
  A cell of the table \<open>read_excel\<close> returns: a missing value (\<open>NaN\<close>, or \<open>None\<close> in an
  object column), a string, an integer, or any other object (a float, a boolean, a
  date), which the program only ever reads through \<open>str\<close> and which is therefore kept
  as that rendering.
\<close>

datatype cell = PyNone | PyNaN | PyStr string | PyInt int | PyObj string

definition isna :: "cell \<Rightarrow> bool" where
  "isna v = (v = PyNone \<or> v = PyNaN)"

definition digit_char :: "nat \<Rightarrow> char" where
  "digit_char d = ''0123456789'' ! d"

function str_nat :: "nat \<Rightarrow> string" where
  "str_nat n = (if n < 10 then [digit_char n] else str_nat (n div 10) @ [digit_char (n mod 10)])"
  by pat_completeness auto
termination
  by (relation "measure id") auto

declare str_nat.simps [simp del]

definition str_int :: "int \<Rightarrow> string" where
  "str_int i = (if i < 0 then CHR ''-'' # str_nat (nat (- i)) else str_nat (nat i))"

fun py_str :: "cell \<Rightarrow> string" where
  "py_str PyNone = ''None''"
| "py_str PyNaN = ''nan''"
| "py_str (PyStr s) = s"
| "py_str (PyInt i) = str_int i"
| "py_str (PyObj s) = s"

subsection \<open>Cleaning a text\<close>

definition marker :: string where
  "marker = ''[e-mail removido]''"

text \<open>
  \<^verbatim>\<open>
  def clean_text(s: str) -> str:
      if s is None:
          return ""
      s = str(s)
      s = EMAIL_RE.sub("[e-mail removido]", s)
      s = WHITESPACE_RE.sub(" ", s).strip()
      return s
  \<close>
\<close>

definition clean_text :: "cell \<Rightarrow> string" where
  "clean_text v =
     (if v = PyNone then []
      else py_strip (re_sub WHITESPACE_RE '' '' (re_sub EMAIL_RE marker (py_str v))))"


subsection \<open>Numeric coercion\<close>

text \<open>
  \<open>pd.to_numeric(..., errors="coerce")\<close> on one string is pandas's code, not this
  program's. It reads a decimal token: optional white space around, an optional sign,
  digits with an optional fraction, an optional exponent. A text that is no such token is
  still a number when it is, in any case of its letters, one of the six names of an
  infinity: \<open>inf\<close>, \<open>+inf\<close>, \<open>-inf\<close>, \<open>infinity\<close>, \<open>+infinity\<close>, \<open>-infinity\<close>. Every
  other text, the empty string and \<open>nan\<close> among them, is missing (\<open>None\<close>). A parsed
  value is a float that is not \<open>NaN\<close>: a finite number, kept as an exact rational
  (binary rounding and overflow are outside the model), or one of the two infinities.
\<close>

datatype fnum = Fin rat | PosInf | NegInf

definition is_c_space :: "char \<Rightarrow> bool" where
  "is_c_space c = (let n = (of_char c :: nat) in (9 \<le> n \<and> n \<le> 13) \<or> n = 32)"

definition digit_val :: "char \<Rightarrow> nat" where
  "digit_val c = of_char c - 48"

definition digits_val :: "string \<Rightarrow> nat" where
  "digits_val ds = foldl (\<lambda>a c. 10 * a + digit_val c) 0 ds"

fun parse_sign :: "string \<Rightarrow> bool \<times> string" where
  "parse_sign [] = (False, [])"
| "parse_sign (c # cs) =
     (if c = CHR ''-'' then (True, cs) else if c = CHR ''+'' then (False, cs) else (False, c # cs))"

definition parse_exponent :: "string \<Rightarrow> (int \<times> string) option" where
  "parse_exponent s =
     (case s of
        [] \<Rightarrow> Some (0, [])
      | c # cs \<Rightarrow>
          if c = CHR ''e'' \<or> c = CHR ''E''
          then (let (neg, r) = parse_sign cs; ds = takeWhile is_digit r
                in if ds = [] then None
                   else Some (if neg then - int (digits_val ds) else int (digits_val ds),
                              dropWhile is_digit r))
          else Some (0, s))"

definition pow10 :: "int \<Rightarrow> rat" where
  "pow10 e = (if 0 \<le> e then 10 ^ nat e else 1 / 10 ^ nat (- e))"

definition parse_decimal :: "string \<Rightarrow> rat option" where
  "parse_decimal s =
     (let (neg, t) = parse_sign (dropWhile is_c_space s);
          ip = takeWhile is_digit t;
          r1 = dropWhile is_digit t;
          (fp, r2) = (case r1 of
                        [] \<Rightarrow> ([], r1)
                      | c # cs \<Rightarrow> if c = CHR ''.''
                                 then (takeWhile is_digit cs, dropWhile is_digit cs)
                                 else ([], r1))
      in if ip = [] \<and> fp = [] then None
         else (case parse_exponent r2 of
                 None \<Rightarrow> None
               | Some (e, r3) \<Rightarrow>
                   if dropWhile is_c_space r3 \<noteq> [] then None
                   else Some ((if neg then - 1 else 1)
                              * (of_nat (digits_val (ip @ fp)) / 10 ^ length fp) * pow10 e)))"

definition parse_infinity :: "string \<Rightarrow> fnum option" where
  "parse_infinity s =
     (let t = py_lower s
      in if t = ''inf'' \<or> t = ''+inf'' \<or> t = ''infinity'' \<or> t = ''+infinity'' then Some PosInf
         else if t = ''-inf'' \<or> t = ''-infinity'' then Some NegInf
         else None)"

definition pd_to_numeric :: "string \<Rightarrow> fnum option" where
  "pd_to_numeric s =
     (case parse_decimal s of Some x \<Rightarrow> Some (Fin x) | None \<Rightarrow> parse_infinity s)"

text \<open>
  \<^verbatim>\<open>
  def to_numeric_series(series: pd.Series) -> pd.Series:
      return pd.to_numeric(
          series.astype(str).str.replace(",", ".", regex=False),
          errors="coerce"
      )
  \<close>
\<close>

definition to_numeric_series :: "cell list \<Rightarrow> fnum option list" where
  "to_numeric_series series = map (\<lambda>v. pd_to_numeric (py_replace '','' ''.'' (py_str v))) series"

subsection \<open>Series\<close>

text \<open>\<open>s.dropna()\<close> on a numeric series, \<open>s.unique()\<close> (first occurrences, in order)
  and \<open>s.notna().mean()\<close>.\<close>

definition dropna_num :: "fnum option list \<Rightarrow> fnum list" where
  "dropna_num s = List.map_filter id s"

definition unique :: "'a list \<Rightarrow> 'a list" where
  "unique xs = rev (remdups (rev xs))"

definition notna_mean :: "fnum option list \<Rightarrow> rat option" where
  "notna_mean s =
     (if s = [] then None
      else Some (of_nat (length (dropna_num s)) / of_nat (length s)))"

text \<open>
  \<open>s.mean()\<close> leaves the missing values out, adds the present ones and divides by their
  number, in floating-point arithmetic: a sum to which both infinities were added is
  \<open>NaN\<close>, and so is the mean of no value. \<open>NaN\<close> is \<open>None\<close> here.
\<close>

fun add_f :: "fnum option \<Rightarrow> fnum \<Rightarrow> fnum option" where
  "add_f None y = None"
| "add_f (Some (Fin a)) (Fin b) = Some (Fin (a + b))"
| "add_f (Some (Fin a)) PosInf = Some PosInf"
| "add_f (Some (Fin a)) NegInf = Some NegInf"
| "add_f (Some PosInf) NegInf = None"
| "add_f (Some PosInf) y = Some PosInf"
| "add_f (Some NegInf) PosInf = None"
| "add_f (Some NegInf) y = Some NegInf"

definition sum_f :: "fnum list \<Rightarrow> fnum option" where
  "sum_f xs = foldl add_f (Some (Fin 0)) xs"

fun div_f :: "fnum option \<Rightarrow> nat \<Rightarrow> fnum option" where
  "div_f None n = None"
| "div_f (Some (Fin a)) n = Some (Fin (a / of_nat n))"
| "div_f (Some PosInf) n = Some PosInf"
| "div_f (Some NegInf) n = Some NegInf"

definition series_mean :: "fnum option list \<Rightarrow> fnum option" where
  "series_mean s =
     (let xs = dropna_num s
      in if xs = [] then None else div_f (sum_f xs) (length xs))"

subsection \<open>Column names\<close>

text \<open>
  \<^verbatim>\<open>
  def guess_timestamp_col(cols):
      preferred = ["Carimbo de data/hora", "Timestamp", "Data/hora", "Data e hora"]
      for p in preferred:
          for c in cols:
              if p.lower() in str(c).lower():
                  return c
      return None
  \<close>
\<close>

definition preferred :: "string list" where
  "preferred = [''Carimbo de data/hora'', ''Timestamp'', ''Data/hora'', ''Data e hora'']"

fun guess_loop :: "string list \<Rightarrow> string list \<Rightarrow> string option" where
  "guess_loop [] cols = None"
| "guess_loop (p # ps) cols =
     (case find (\<lambda>c. py_in (py_lower p) (py_lower c)) cols of
        Some c \<Rightarrow> Some c
      | None \<Rightarrow> guess_loop ps cols)"

definition guess_timestamp_col :: "string list \<Rightarrow> string option" where
  "guess_timestamp_col cols = guess_loop preferred cols"

definition is_email_col :: "string \<Rightarrow> bool" where
  "is_email_col colname = (let c = py_lower colname in py_in ''e-mail'' c \<or> py_in ''email'' c)"

definition is_name_col :: "string \<Rightarrow> bool" where
  "is_name_col colname =
     (let c = py_lower colname in c = ''nome'' \<or> (py_in ''nome'' c \<and> py_in ''seu'' c))"

definition is_comment_col :: "string \<Rightarrow> bool" where
  "is_comment_col colname =
     (let c = py_lower colname;
          keys = [''coment'', ''sugest'', ''observa'', ''feedback'', ''melhoria'', ''deixe aqui'']
      in list_ex (\<lambda>k. py_in k c) keys)"

text \<open>
  \<open>nice_col\<close> keeps a name of at most 60 characters and cuts a longer one to its first
  57 characters followed by an ellipsis; \<open>Cut t\<close> stands for \<open>t\<close> and that one sign.
\<close>

datatype label = Whole string | Cut string

definition nice_col :: "string \<Rightarrow> label" where
  "nice_col col = (if length col \<le> 60 then Whole col else Cut (take 57 col))"

subsection \<open>The table\<close>

text \<open>
  The data frame is the list of its columns in file order, each a name and its cells.
  \<open>read_excel\<close> makes the names distinct and the columns equally long.
\<close>

type_synonym frame = "(string \<times> cell list) list"

definition columns :: "frame \<Rightarrow> string list" where
  "columns df = map fst df"

text \<open>
  \<open>df[c]\<close>. Every call in the program passes a name taken from the columns of the
  frame it reads, so the \<open>KeyError\<close> of an unknown name does not arise; the model gives
  the empty column there.
\<close>

definition column :: "frame \<Rightarrow> string \<Rightarrow> cell list" where
  "column df c = (case map_of df c of Some xs \<Rightarrow> xs | None \<Rightarrow> [])"

definition wf_frame :: "frame \<Rightarrow> bool" where
  "wf_frame df = (distinct (columns df) \<and> list_all (\<lambda>(c, xs). length xs = length (snd (hd df))) df)"

text \<open>\<open>df.empty\<close>: no column, or no row.\<close>

definition df_empty :: "frame \<Rightarrow> bool" where
  "df_empty df = (case df of [] \<Rightarrow> True | (c, xs) # rest \<Rightarrow> xs = [])"

text \<open>\<open>df.drop(columns=names, errors="ignore")\<close>\<close>

definition drop_columns :: "string list \<Rightarrow> frame \<Rightarrow> frame" where
  "drop_columns names df = filter (\<lambda>(c, xs). c \<notin> set names) df"

text \<open>\<open>s.dropna()\<close> on a column of cells.\<close>

definition dropna :: "cell list \<Rightarrow> cell list" where
  "dropna s = filter (\<lambda>v. \<not> isna v) s"


subsection \<open>The run over a table\<close>

text \<open>
  The program runs top to bottom over the uploaded table \<open>df\<close> and the sidebar's
  settings: \<open>hide_identifying\<close>, \<open>show_raw_table\<close> and \<open>max_comments\<close>. It stops
  before any section when \<open>df.empty\<close>. Each section below is the value the program
  computes there.

  \<^verbatim>\<open>
  id_cols = [c for c in cols if is_email_col(c) or is_name_col(c)]
  if hide_identifying and id_cols:
      df_work = df_work.drop(columns=id_cols, errors="ignore")
  \<close>
\<close>

definition id_cols :: "frame \<Rightarrow> string list" where
  "id_cols df = filter (\<lambda>c. is_email_col c \<or> is_name_col c) (columns df)"

definition df_work :: "bool \<Rightarrow> frame \<Rightarrow> frame" where
  "df_work hide_identifying df =
     (if hide_identifying \<and> id_cols df \<noteq> [] then drop_columns (id_cols df) df else df)"

text \<open>
  \<^verbatim>\<open>
  numeric_cols = []
  for c in df_work.columns:
      s = to_numeric_series(df_work[c])
      if s.notna().mean() >= 0.5 and len(s.dropna().unique()) <= 20:
          numeric_cols.append(c)
  \<close>
  A comparison with \<open>NaN\<close> is false.
\<close>

definition numeric_cols :: "bool \<Rightarrow> frame \<Rightarrow> string list" where
  "numeric_cols hide_identifying df =
     filter
       (\<lambda>c. let s = to_numeric_series (column (df_work hide_identifying df) c)
            in (case notna_mean s of None \<Rightarrow> False | Some f \<Rightarrow> 1 / 2 \<le> f)
               \<and> length (unique (dropna_num s)) \<le> 20)
       (columns (df_work hide_identifying df))"

text \<open>
  \<^verbatim>\<open>
  means = pd.DataFrame({
      "Indicador": [nice_col(c) for c in numeric_cols],
      "M\'edia": [to_numeric_series(df_work[c]).mean() for c in numeric_cols]
  }).sort_values("M\'edia", ascending=False)
  \<close>
  \<open>means_rows\<close> is the frame before it is sorted.
\<close>

definition means_rows :: "bool \<Rightarrow> frame \<Rightarrow> (label \<times> fnum option) list" where
  "means_rows hide_identifying df =
     map (\<lambda>c. (nice_col c, series_mean (to_numeric_series (column (df_work hide_identifying df) c))))
       (numeric_cols hide_identifying df)"

text \<open>
  \<open>sort_values(..., ascending=False)\<close> and the sort inside \<open>value_counts()\<close> run with
  pandas's default \<open>kind="quicksort"\<close>, which pandas documents as not stable. What the
  program fixes is therefore the contract of that call and no more: the result holds the
  same rows, each as often, and no row stands before one that must precede it. The
  sorted frame is a relation between the rows and a result, not a function.
\<close>

definition sort_values_desc :: "('r \<Rightarrow> 'r \<Rightarrow> bool) \<Rightarrow> 'r list \<Rightarrow> 'r list \<Rightarrow> bool" where
  "sort_values_desc before rows out = (mset out = mset rows \<and> sorted_wrt before out)"

text \<open>The order of the floats that are not \<open>NaN\<close>.\<close>

fun fnum_le :: "fnum \<Rightarrow> fnum \<Rightarrow> bool" where
  "fnum_le NegInf y = True"
| "fnum_le (Fin a) (Fin b) = (a \<le> b)"
| "fnum_le (Fin a) PosInf = True"
| "fnum_le PosInf PosInf = True"
| "fnum_le x y = False"

text \<open>Descending means, \<open>NaN\<close> last (\<open>na_position="last"\<close>, the default).\<close>

definition mean_before :: "label \<times> fnum option \<Rightarrow> label \<times> fnum option \<Rightarrow> bool" where
  "mean_before a b =
     (case snd b of
        None \<Rightarrow> True
      | Some y \<Rightarrow> (case snd a of None \<Rightarrow> False | Some x \<Rightarrow> fnum_le y x))"

text \<open>The table of means the section may show; there is none when no column is numeric.\<close>

definition means :: "bool \<Rightarrow> frame \<Rightarrow> (label \<times> fnum option) list \<Rightarrow> bool" where
  "means hide_identifying df out =
     (numeric_cols hide_identifying df \<noteq> []
      \<and> sort_values_desc mean_before (means_rows hide_identifying df) out)"

text \<open>
  \<^verbatim>\<open>
  textual_cols = [
      c for c in df.columns
      if c not in numeric_cols
      and c != ts_col
      and not is_comment_col(c)
      and not (hide_identifying and (is_email_col(c) or is_name_col(c)))
  ]
  \<close>
\<close>

definition textual_cols :: "bool \<Rightarrow> frame \<Rightarrow> string list" where
  "textual_cols hide_identifying df =
     filter
       (\<lambda>c. c \<notin> set (numeric_cols hide_identifying df)
            \<and> Some c \<noteq> guess_timestamp_col (columns df)
            \<and> \<not> is_comment_col c
            \<and> \<not> (hide_identifying \<and> (is_email_col c \<or> is_name_col c)))
       (columns df)"

text \<open>
  \<^verbatim>\<open>
  freq = (df[q].dropna().astype(str).map(clean_text).value_counts().reset_index())
  \<close>
  \<open>value_counts\<close> counts each distinct value, the values in the order they first occur,
  and sorts the counts descending.
\<close>

definition cleaned :: "frame \<Rightarrow> string \<Rightarrow> string list" where
  "cleaned df c = map (\<lambda>v. clean_text (PyStr (py_str v))) (dropna (column df c))"

definition count_rows :: "string list \<Rightarrow> (string \<times> nat) list" where
  "count_rows xs = map (\<lambda>x. (x, count_list xs x)) (unique xs)"

definition count_before :: "string \<times> nat \<Rightarrow> string \<times> nat \<Rightarrow> bool" where
  "count_before a b = (snd b \<le> snd a)"

definition freq :: "frame \<Rightarrow> string \<Rightarrow> (string \<times> nat) list \<Rightarrow> bool" where
  "freq df q out = sort_values_desc count_before (count_rows (cleaned df q)) out"

text \<open>
  \<^verbatim>\<open>
  comment_cols = [c for c in df.columns if is_comment_col(c)]
  if comment_cols:
      for c in comment_cols:
          st.markdown(f"**{nice_col(c)}**")
          comments = (df[c].dropna().astype(str).map(clean_text).tolist())
          if not comments:
              st.write("_Sem coment\'arios._")
          else:
              for txt in comments[:max_comments]:
                  st.write(f"- {txt}")
          st.divider()
  else:
      st.info("Nenhum campo de coment\'arios encontrado.")
  \<close>
  The section is the list of the calls it makes on the page.
\<close>

datatype ui = Markdown_bold label | Write string | Divider | Info string

definition comment_cols :: "frame \<Rightarrow> string list" where
  "comment_cols df = filter is_comment_col (columns df)"

definition no_comments_text :: string where
  "no_comments_text = ''_Sem coment'' @ [CHR 0xE1] @ ''rios._''"

definition no_comment_cols_text :: string where
  "no_comment_cols_text = ''Nenhum campo de coment'' @ [CHR 0xE1] @ ''rios encontrado.''"

definition comment_block :: "frame \<Rightarrow> nat \<Rightarrow> string \<Rightarrow> ui list" where
  "comment_block df max_comments c =
     Markdown_bold (nice_col c)
     # (let comments = cleaned df c
        in if comments = [] then [Write no_comments_text]
           else map (\<lambda>txt. Write (''- '' @ txt)) (take max_comments comments))
     @ [Divider]"

definition comments_section :: "frame \<Rightarrow> nat \<Rightarrow> ui list" where
  "comments_section df max_comments =
     (if comment_cols df \<noteq> []
      then concat (map (comment_block df max_comments) (comment_cols df))
      else [Info no_comment_cols_text])"

text \<open>
  \<^verbatim>\<open>
  if show_raw_table:
      st.dataframe(df_work, use_container_width=True)
  \<close>
\<close>

definition raw_table :: "bool \<Rightarrow> bool \<Rightarrow> frame \<Rightarrow> frame option" where
  "raw_table hide_identifying show_raw_table df =
     (if show_raw_table then Some (df_work hide_identifying df) else None)"

text \<open>
  \<^verbatim>\<open>
  score_col = next((c for c in df.columns if "pontua\c{c}\~ao" in str(c).lower()), None)
  if score_col:
      mean_score = to_numeric_series(df[score_col]).mean()
      c3.metric(..., f"{mean_score:.2f}" if pd.notna(mean_score) else "-")
  else:
      c3.metric(..., "-")
  \<close>
  The tile shows a dash, or the mean printed with two decimals (\<open>Fixed2\<close>).
\<close>

datatype metric_text = Dash | Fixed2 fnum

definition score_word :: string where
  "score_word = ''pontua'' @ [CHR 0xE7, CHR 0xE3] @ ''o''"

definition score_col :: "frame \<Rightarrow> string option" where
  "score_col df = find (\<lambda>c. py_in score_word (py_lower c)) (columns df)"

definition mean_text :: "fnum option \<Rightarrow> metric_text" where
  "mean_text mean_score = (case mean_score of Some m \<Rightarrow> Fixed2 m | None \<Rightarrow> Dash)"

definition mean_score_metric :: "frame \<Rightarrow> metric_text" where
  "mean_score_metric df =
     (case score_col df of
        Some c \<Rightarrow> mean_text (series_mean (to_numeric_series (column df c)))
      | None \<Rightarrow> Dash)"

subsection \<open>Notions the properties are stated with\<close>

text \<open>
  A text has the shape of an e-mail address when it is a match of \<open>EMAIL_RE\<close>: a
  non-empty local part of word characters, dots and hyphens, an \<open>@\<close>, a non-empty domain
  of the same characters, a dot, and a non-empty run of word characters.
\<close>

definition email_shaped :: "string \<Rightarrow> bool" where
  "email_shaped t =
     (\<exists>l d w. t = l @ CHR ''@'' # d @ CHR ''.'' # w
        \<and> l \<noteq> [] \<and> list_all email_class l
        \<and> d \<noteq> [] \<and> list_all email_class d
        \<and> w \<noteq> [] \<and> list_all is_word w)"

definition has_email :: "string \<Rightarrow> bool" where
  "has_email s = (\<exists>t. email_shaped t \<and> sublist t s)"

definition email_char :: "char \<Rightarrow> bool" where
  "email_char c = (email_class c \<or> c = CHR ''@'')"


text \<open>
  A text cut into gaps and pieces, a gap before and after every piece: \<open>weave\<close> puts
  it together again.
\<close>

fun weave :: "string list \<Rightarrow> string list \<Rightarrow> string" where
  "weave [] ps = []"
| "weave (g # gs) [] = g"
| "weave (g # gs) (p # ps) = g @ p @ weave gs ps"

text \<open>\<open>s.split()\<close>, the words of a text, and \<open>sep.join(words)\<close>.\<close>

function py_split :: "string \<Rightarrow> string list" where
  "py_split s =
     (if dropWhile is_space s = [] then []
      else takeWhile (\<lambda>c. \<not> is_space c) (dropWhile is_space s)
           # py_split (dropWhile (\<lambda>c. \<not> is_space c) (dropWhile is_space s)))"
  by pat_completeness auto
termination
proof (relation "measure length")
  show "wf (measure length)" by simp
next
  fix s :: string
  assume ne: "dropWhile is_space s \<noteq> []"
  let ?t = "dropWhile is_space s"
  from ne obtain c cs where t: "?t = c # cs" by (cases ?t) auto
  from ne have "\<not> is_space (hd ?t)" by (rule hd_dropWhile)
  with t have "\<not> is_space c" by simp
  with t have "length (dropWhile (\<lambda>c. \<not> is_space c) ?t) \<le> length cs"
    by (simp add: length_dropWhile_le)
  also have "length cs < length ?t" using t by simp
  also have "length ?t \<le> length s" by (rule length_dropWhile_le)
  finally show "(dropWhile (\<lambda>c. \<not> is_space c) ?t, s) \<in> measure length" by simp
qed

declare py_split.simps [simp del]

fun py_join :: "string \<Rightarrow> string list \<Rightarrow> string" where
  "py_join sep [] = []"
| "py_join sep [w] = w"
| "py_join sep (w # w' # ws) = w @ sep @ py_join sep (w' # ws)"

text \<open>White space occurs only as single blanks between other characters.\<close>

fun single_spaced :: "string \<Rightarrow> bool" where
  "single_spaced [] = True"
| "single_spaced [c] = (is_space c \<longrightarrow> c = CHR '' '')"
| "single_spaced (c # d # cs) =
     ((is_space c \<longrightarrow> c = CHR '' '' \<and> \<not> is_space d) \<and> single_spaced (d # cs))"


section \<open>Lemmas\<close>

subsection \<open>The backtracking matcher\<close>

lemma space_not_email_char: "is_space c \<Longrightarrow> \<not> email_char c"
  by (auto simp: is_space_def email_char_def email_class_def is_word_def is_alnum_def Let_def)

lemma at_not_class: "\<not> email_class CHR ''@''"
  by (simp add: email_class_def is_word_def is_alnum_def)

lemma word_class: "is_word c \<Longrightarrow> email_class c"
  by (simp add: email_class_def)

lemma bracket_not_email_char:
  "\<not> email_char CHR ''[''" "\<not> email_char CHR '']''"
  by (simp_all add: email_char_def email_class_def is_word_def is_alnum_def)

lemma star_bt_Some_total: "star_bt p Some s = Some (dropWhile p s)"
  by (induction s) auto

lemma star_bt_None_iff:
  "star_bt p k s = None \<longleftrightarrow> (\<forall>n \<le> length (takeWhile p s). k (drop n s) = None)"
proof (induction s)
  case Nil
  then show ?case by simp
next
  case (Cons c cs)
  show ?case
  proof (cases "p c")
    case True
    have "(\<forall>n \<le> Suc (length (takeWhile p cs)). k (drop n (c # cs)) = None)
       \<longleftrightarrow> k (c # cs) = None \<and> (\<forall>n \<le> length (takeWhile p cs). k (drop n cs) = None)"
      (is "?L \<longleftrightarrow> ?R")
    proof
      assume L: ?L
      have "k (drop 0 (c # cs)) = None" using L by blast
      moreover have "\<forall>n \<le> length (takeWhile p cs). k (drop n cs) = None"
      proof (intro allI impI)
        fix n assume "n \<le> length (takeWhile p cs)"
        then have "k (drop (Suc n) (c # cs)) = None" using L by blast
        then show "k (drop n cs) = None" by simp
      qed
      ultimately show ?R by simp
    next
      assume R: ?R
      show ?L
      proof (intro allI impI)
        fix n assume n: "n \<le> Suc (length (takeWhile p cs))"
        show "k (drop n (c # cs)) = None"
          using R n by (cases n) auto
      qed
    qed
    with True Cons show ?thesis by (auto split: option.splits)
  next
    case False
    then show ?thesis by simp
  qed
qed

lemma star_bt_Some_D:
  "star_bt p k s = Some r \<Longrightarrow> \<exists>n \<le> length (takeWhile p s). k (drop n s) = Some r"
proof (induction s)
  case Nil
  then show ?case by simp
next
  case (Cons c cs)
  show ?case
  proof (cases "p c")
    case True
    show ?thesis
    proof (cases "star_bt p k cs")
      case None
      with Cons.prems True have "k (c # cs) = Some r" by simp
      then have "k (drop 0 (c # cs)) = Some r" by simp
      then show ?thesis by blast
    next
      case (Some r')
      with Cons.prems True have "star_bt p k cs = Some r" by simp
      from Cons.IH[OF this] obtain n where n: "n \<le> length (takeWhile p cs)" "k (drop n cs) = Some r"
        by blast
      then have "Suc n \<le> length (takeWhile p (c # cs))" "k (drop (Suc n) (c # cs)) = Some r"
        using True by auto
      then show ?thesis by blast
    qed
  next
    case False
    with Cons.prems have "k (drop 0 (c # cs)) = Some r" by simp
    then show ?thesis by blast
  qed
qed

lemma plus_bt_None_iff:
  "plus_bt p k s = None \<longleftrightarrow>
     (\<forall>n. 1 \<le> n \<and> n \<le> length (takeWhile p s) \<longrightarrow> k (drop n s) = None)"
proof (cases s)
  case Nil
  then show ?thesis by (simp add: plus_bt_def)
next
  case (Cons c cs)
  show ?thesis
  proof (cases "p c")
    case True
    have "(\<forall>n. 1 \<le> n \<and> n \<le> Suc (length (takeWhile p cs)) \<longrightarrow> k (drop n (c # cs)) = None)
      \<longleftrightarrow> (\<forall>n \<le> length (takeWhile p cs). k (drop n cs) = None)" (is "?L \<longleftrightarrow> ?R")
    proof
      assume L: ?L
      show ?R
      proof (intro allI impI)
        fix n assume "n \<le> length (takeWhile p cs)"
        then have "k (drop (Suc n) (c # cs)) = None" using L[rule_format, of "Suc n"] by simp
        then show "k (drop n cs) = None" by simp
      qed
    next
      assume R: ?R
      show ?L
      proof (intro allI impI)
        fix n assume "1 \<le> n \<and> n \<le> Suc (length (takeWhile p cs))"
        then show "k (drop n (c # cs)) = None" using R by (cases n) auto
      qed
    qed
    with True Cons show ?thesis by (simp add: plus_bt_def star_bt_None_iff)
  next
    case False
    with Cons show ?thesis by (simp add: plus_bt_def)
  qed
qed

lemma plus_bt_Some_D:
  assumes "plus_bt p k s = Some r"
  shows "\<exists>n. 1 \<le> n \<and> n \<le> length (takeWhile p s) \<and> k (drop n s) = Some r"
proof (cases s)
  case Nil
  with assms show ?thesis by (simp add: plus_bt_def)
next
  case (Cons c cs)
  with assms have pc: "p c" and st: "star_bt p k cs = Some r"
    by (auto simp: plus_bt_def split: if_splits)
  from star_bt_Some_D[OF st] obtain n where "n \<le> length (takeWhile p cs)" "k (drop n cs) = Some r"
    by blast
  then have "1 \<le> Suc n \<and> Suc n \<le> length (takeWhile p s) \<and> k (drop (Suc n) s) = Some r"
    using Cons pc by simp
  then show ?thesis by blast
qed

lemma plus_bt_intro:
  assumes "1 \<le> n" and "n \<le> length (takeWhile p s)" and "k (drop n s) \<noteq> None"
  shows "plus_bt p k s \<noteq> None"
proof
  assume a: "plus_bt p k s = None"
  have "k (drop n s) = None"
    using iffD1[OF plus_bt_None_iff a, rule_format, of n] assms(1,2) by simp
  with assms(3) show False by simp
qed

lemma lit_Some_D: "lit a k s = Some r \<Longrightarrow> \<exists>cs. s = a # cs \<and> k cs = Some r"
  by (auto simp: lit_def split: list.splits if_splits)

lemma takeWhile_prefix_all:
  "n \<le> length (takeWhile p s) \<Longrightarrow> list_all p (take n s)"
proof -
  assume n: "n \<le> length (takeWhile p s)"
  have "take n s = take n (takeWhile p s)"
    by (metis n append_eq_conv_conj length_take min.absorb2 take_take takeWhile_dropWhile_id)
  moreover have "list_all p (takeWhile p s)" by (simp add: list_all_iff) (meson set_takeWhileD)
  ultimately show ?thesis
    by (metis append_take_drop_id list_all_append)
qed

lemma all_le_takeWhile: "list_all p l \<Longrightarrow> length l \<le> length (takeWhile p (l @ r))"
  by (induction l) auto


lemma EMAIL_RE_sound:
  assumes "EMAIL_RE s = Some r"
  shows "\<exists>t. s = t @ r \<and> email_shaped t"
proof -
  let ?k3 = "plus_bt is_word Some"
  let ?k2 = "plus_bt email_class (lit CHR ''.'' ?k3)"
  from assms have "plus_bt email_class (lit CHR ''@'' ?k2) s = Some r"
    by (simp add: EMAIL_RE_def)
  from plus_bt_Some_D[OF this] obtain n1 where
    n1: "1 \<le> n1" "n1 \<le> length (takeWhile email_class s)"
    and k1: "lit CHR ''@'' ?k2 (drop n1 s) = Some r" by blast
  from lit_Some_D[OF k1] obtain s2 where s2: "drop n1 s = CHR ''@'' # s2" and k2: "?k2 s2 = Some r"
    by blast
  from plus_bt_Some_D[OF k2] obtain n2 where
    n2: "1 \<le> n2" "n2 \<le> length (takeWhile email_class s2)"
    and k3: "lit CHR ''.'' ?k3 (drop n2 s2) = Some r" by blast
  from lit_Some_D[OF k3] obtain s3 where s3: "drop n2 s2 = CHR ''.'' # s3" and k4: "?k3 s3 = Some r"
    by blast
  from plus_bt_Some_D[OF k4] obtain n3 where
    n3: "1 \<le> n3" "n3 \<le> length (takeWhile is_word s3)" and r: "drop n3 s3 = r" by auto
  define l where "l = take n1 s"
  define d where "d = take n2 s2"
  define w where "w = take n3 s3"
  have "s = l @ drop n1 s" by (simp add: l_def)
  also have "\<dots> = l @ CHR ''@'' # s2" by (simp add: s2)
  also have "s2 = d @ drop n2 s2" by (simp add: d_def)
  also have "drop n2 s2 = CHR ''.'' # s3" by (rule s3)
  also have "s3 = w @ r" using r[symmetric] by (simp add: w_def)
  finally have s: "s = (l @ CHR ''@'' # d @ CHR ''.'' # w) @ r" by simp
  have "length (takeWhile email_class s) \<le> length s" by (rule length_takeWhile_le)
  with n1 have "l \<noteq> []" by (auto simp: l_def)
  moreover have "length (takeWhile email_class s2) \<le> length s2" by (rule length_takeWhile_le)
  with n2 have "d \<noteq> []" by (auto simp: d_def)
  moreover have "length (takeWhile is_word s3) \<le> length s3" by (rule length_takeWhile_le)
  with n3 have "w \<noteq> []" by (auto simp: w_def)
  moreover have "list_all email_class l" "list_all email_class d" "list_all is_word w"
    using n1 n2 n3 by (simp_all add: l_def d_def w_def takeWhile_prefix_all)
  ultimately have "email_shaped (l @ CHR ''@'' # d @ CHR ''.'' # w)"
    unfolding email_shaped_def by blast
  with s show ?thesis by blast
qed

lemma EMAIL_RE_complete:
  assumes "email_shaped t"
  shows "EMAIL_RE (t @ v) \<noteq> None"
proof -
  let ?k3 = "plus_bt is_word Some"
  let ?k2 = "plus_bt email_class (lit CHR ''.'' ?k3)"
  from assms obtain l d w where t: "t = l @ CHR ''@'' # d @ CHR ''.'' # w"
    and l: "l \<noteq> []" "list_all email_class l"
    and d: "d \<noteq> []" "list_all email_class d"
    and w: "w \<noteq> []" "list_all is_word w"
    unfolding email_shaped_def by blast
  obtain c ws where wc: "w = c # ws" using w(1) by (cases w) auto
  have k3: "?k3 (w @ v) \<noteq> None"
    using w(2) by (simp add: wc plus_bt_def star_bt_Some_total)
  have k2: "?k2 (d @ CHR ''.'' # w @ v) \<noteq> None"
  proof (rule plus_bt_intro[where n = "length d"])
    show "1 \<le> length d" using d(1) by (cases d) auto
    show "length d \<le> length (takeWhile email_class (d @ CHR ''.'' # w @ v))"
      using d(2) by (rule all_le_takeWhile)
    show "lit CHR ''.'' ?k3 (drop (length d) (d @ CHR ''.'' # w @ v)) \<noteq> None"
      using k3 by (simp add: lit_def)
  qed
  have "plus_bt email_class (lit CHR ''@'' ?k2) (l @ CHR ''@'' # d @ CHR ''.'' # w @ v) \<noteq> None"
  proof (rule plus_bt_intro[where n = "length l"])
    show "1 \<le> length l" using l(1) by (cases l) auto
    show "length l \<le> length (takeWhile email_class (l @ CHR ''@'' # d @ CHR ''.'' # w @ v))"
      using l(2) by (rule all_le_takeWhile)
    show "lit CHR ''@'' ?k2 (drop (length l) (l @ CHR ''@'' # d @ CHR ''.'' # w @ v)) \<noteq> None"
      using k2 by (simp add: lit_def)
  qed
  then show ?thesis by (simp add: EMAIL_RE_def t)
qed

lemma EMAIL_RE_Nil: "EMAIL_RE [] = None"
  by (simp add: EMAIL_RE_def plus_bt_def)

lemma email_shaped_chars:
  assumes "email_shaped t"
  shows "CHR ''@'' \<in> set t" and "list_all email_char t"
proof -
  from assms obtain l d w where t: "t = l @ CHR ''@'' # d @ CHR ''.'' # w"
    and l: "list_all email_class l" and d: "list_all email_class d" and w: "list_all is_word w"
    unfolding email_shaped_def by blast
  show "CHR ''@'' \<in> set t" by (simp add: t)
  have "list_all email_char l" "list_all email_char d" "list_all email_char w"
    using l d w by (auto simp: list_all_iff email_char_def word_class)
  moreover have "email_char CHR ''@''" "email_char CHR ''.''"
    by (simp_all add: email_char_def email_class_def)
  ultimately show "list_all email_char t" by (simp add: t)
qed

lemma email_shaped_nonempty: "email_shaped t \<Longrightarrow> t \<noteq> []"
  using email_shaped_chars(1) by fastforce

lemma re_search_iff: "re_search m s \<longleftrightarrow> (\<exists>u. suffix u s \<and> m u \<noteq> None)"
proof (induction s)
  case Nil
  then show ?case by simp
next
  case (Cons c cs)
  then show ?case by (auto simp: suffix_Cons)
qed

lemma has_email_iff_search: "has_email s \<longleftrightarrow> re_search EMAIL_RE s"
proof
  assume "has_email s"
  then obtain t where t: "email_shaped t" "sublist t s" unfolding has_email_def by blast
  then obtain ps ss where "s = ps @ t @ ss" unfolding sublist_def by blast
  then have "suffix (t @ ss) s" by (simp add: suffix_def)
  moreover have "EMAIL_RE (t @ ss) \<noteq> None" using t(1) by (rule EMAIL_RE_complete)
  ultimately show "re_search EMAIL_RE s" unfolding re_search_iff by blast
next
  assume "re_search EMAIL_RE s"
  then obtain u r where u: "suffix u s" "EMAIL_RE u = Some r" unfolding re_search_iff by blast
  from EMAIL_RE_sound[OF u(2)] obtain t where t: "u = t @ r" "email_shaped t" by blast
  from u(1) t(1) have "sublist t s" by (auto simp: suffix_def sublist_def)
  with t(2) show "has_email s" unfolding has_email_def by blast
qed

subsection \<open>Substituting e-mail addresses\<close>

lemma EMAIL_RE_shorter: "EMAIL_RE (c # cs) = Some r \<Longrightarrow> length r \<le> length cs"
proof -
  assume "EMAIL_RE (c # cs) = Some r"
  from EMAIL_RE_sound[OF this] obtain t where t: "c # cs = t @ r" "email_shaped t" by blast
  from t(2) have "t \<noteq> []" by (rule email_shaped_nonempty)
  then have "length t \<ge> 1" by (cases t) auto
  moreover have "length (c # cs) = length t + length r" using t(1) by (metis length_append)
  ultimately show ?thesis by simp
qed

lemma email_sub_Nil: "re_sub EMAIL_RE repl [] = []"
  by (simp add: re_sub.simps EMAIL_RE_Nil)

lemma email_sub_None:
  "EMAIL_RE (c # cs) = None \<Longrightarrow> re_sub EMAIL_RE repl (c # cs) = c # re_sub EMAIL_RE repl cs"
  by (simp add: re_sub.simps)

lemma email_sub_Some:
  "EMAIL_RE (c # cs) = Some r \<Longrightarrow> re_sub EMAIL_RE repl (c # cs) = repl @ re_sub EMAIL_RE repl r"
  using EMAIL_RE_shorter[of c cs r] by (simp add: re_sub.simps)

lemma marker_chars: "CHR ''@'' \<notin> set marker" "marker \<noteq> []" "hd marker = CHR ''[''" "last marker = CHR '']''"
  by (simp_all add: marker_def)

text \<open>A piece of the text that has no opening bracket and starts the output starts the input.\<close>

lemma email_sub_prefix:
  "prefix t (re_sub EMAIL_RE marker s) \<Longrightarrow> CHR ''['' \<notin> set t \<Longrightarrow> prefix t s"
proof (induction s arbitrary: t rule: length_induct)
  case (1 s)
  show ?case
  proof (cases s)
    case Nil
    with "1.prems" show ?thesis by (simp add: email_sub_Nil)
  next
    case (Cons c cs)
    show ?thesis
    proof (cases "EMAIL_RE (c # cs)")
      case None
      with "1.prems"(1) Cons have p: "prefix t (c # re_sub EMAIL_RE marker cs)"
        by (simp add: email_sub_None)
      show ?thesis
      proof (cases t)
        case Nil
        then show ?thesis by simp
      next
        case (Cons a t')
        with p have a: "a = c" and p': "prefix t' (re_sub EMAIL_RE marker cs)" by simp_all
        have "length cs < length s" using \<open>s = c # cs\<close> by simp
        moreover have "CHR ''['' \<notin> set t'" using "1.prems"(2) Cons by simp
        ultimately have "prefix t' cs" using "1.IH" p' by blast
        with a Cons \<open>s = c # cs\<close> show ?thesis by simp
      qed
    next
      case (Some r)
      have "re_sub EMAIL_RE marker s = marker @ re_sub EMAIL_RE marker r"
        unfolding Cons using Some by (rule email_sub_Some)
      with "1.prems"(1) have p: "prefix t (marker @ re_sub EMAIL_RE marker r)"
        by simp
      have "t = []"
      proof (cases t)
        case Nil
        then show ?thesis .
      next
        case (Cons a t')
        with p have "a = CHR ''[''" by (simp add: marker_def)
        with Cons "1.prems"(2) show ?thesis by simp
      qed
      then show ?thesis by simp
    qed
  qed
qed

lemma email_shaped_no_bracket:
  assumes "email_shaped t"
  shows "CHR ''['' \<notin> set t" and "CHR '']'' \<notin> set t"
  using email_shaped_chars(2)[OF assms] bracket_not_email_char
  by (auto simp: list_all_iff)

lemma email_sub_clean: "\<not> has_email (re_sub EMAIL_RE marker s)"
proof (induction s rule: length_induct)
  case (1 s)
  show ?case
  proof (cases s)
    case Nil
    show ?thesis
    proof
      assume "has_email (re_sub EMAIL_RE marker s)"
      then obtain t where "email_shaped t" "sublist t []"
        unfolding has_email_def by (auto simp: Nil email_sub_Nil)
      then show False using email_shaped_nonempty by auto
    qed
  next
    case (Cons c cs)
    have IH: "\<And>u. length u < length s \<Longrightarrow> \<not> has_email (re_sub EMAIL_RE marker u)"
      using "1.IH" by blast
    show ?thesis
    proof (cases "EMAIL_RE (c # cs)")
      case None
      show ?thesis
      proof
        assume "has_email (re_sub EMAIL_RE marker s)"
        then obtain t where t: "email_shaped t" "sublist t (c # re_sub EMAIL_RE marker cs)"
          unfolding has_email_def by (auto simp: Cons None email_sub_None)
        from t(2) consider "prefix t (c # re_sub EMAIL_RE marker cs)" | "sublist t (re_sub EMAIL_RE marker cs)"
          by (auto simp: sublist_Cons_right)
        then show False
        proof cases
          case 1
          have "prefix t (re_sub EMAIL_RE marker (c # cs))" using 1 by (simp add: None email_sub_None)
          then have "prefix t (c # cs)"
            using email_shaped_no_bracket(1)[OF t(1)] by (rule email_sub_prefix)
          then obtain v where "c # cs = t @ v" by (auto simp: prefix_def)
          with EMAIL_RE_complete[OF t(1), of v] None show False by simp
        next
          case 2
          then have "has_email (re_sub EMAIL_RE marker cs)" using t(1) unfolding has_email_def by blast
          moreover have "length cs < length s" using Cons by simp
          ultimately show False using IH by blast
        qed
      qed
    next
      case (Some r)
      have len: "length r < length s" using EMAIL_RE_shorter[OF Some] Cons by simp
      show ?thesis
      proof
        assume "has_email (re_sub EMAIL_RE marker s)"
        moreover have "re_sub EMAIL_RE marker s = marker @ re_sub EMAIL_RE marker r"
          unfolding Cons using Some by (rule email_sub_Some)
        ultimately obtain t where t: "email_shaped t" "sublist t (marker @ re_sub EMAIL_RE marker r)"
          unfolding has_email_def by auto
        from t(2) consider "sublist t marker" | "sublist t (re_sub EMAIL_RE marker r)"
          | t1 t2 where "t = t1 @ t2" "suffix t1 marker" "prefix t2 (re_sub EMAIL_RE marker r)"
          unfolding sublist_append by blast
        then show False
        proof cases
          case 1
          then have "set t \<subseteq> set marker" by (rule set_mono_sublist)
          with email_shaped_chars(1)[OF t(1)] marker_chars(1) show False by blast
        next
          case 2
          then have "has_email (re_sub EMAIL_RE marker r)" using t(1) unfolding has_email_def by blast
          with IH[OF len] show False by blast
        next
          case 3
          show False
          proof (cases "t1 = []")
            case True
            with 3 have "sublist t (re_sub EMAIL_RE marker r)" by simp
            then have "has_email (re_sub EMAIL_RE marker r)" using t(1) unfolding has_email_def by blast
            with IH[OF len] show False by blast
          next
            case False
            with 3(2) have "last t1 = last marker"
              by (metis last_appendR suffix_def)
            then have "CHR '']'' \<in> set t1" using False marker_chars(4) by (metis last_in_set)
            then have "CHR '']'' \<in> set t" using 3(1) by simp
            with email_shaped_no_bracket(2)[OF t(1)] show False by blast
          qed
        qed
      qed
    qed
  qed
qed

text \<open>The addresses and the pieces between them.\<close>

lemma weave_Cons_hd: "weave ((c # g) # gs) ps = c # weave (g # gs) ps"
  by (cases ps) simp_all

lemma weave_sublist:
  "length gaps = Suc (length ps) \<Longrightarrow> g \<in> set gaps \<Longrightarrow> sublist g (weave gaps ps)"
proof (induction gaps ps rule: weave.induct)
  case (1 ps)
  then show ?case by simp
next
  case (2 g0 gs)
  then show ?case by simp
next
  case (3 g0 gs p ps)
  show ?case
  proof (cases "g = g0")
    case True
    then show ?thesis by simp
  next
    case False
    with 3 have "sublist g (weave gs ps)" by simp
    then obtain a b where "weave gs ps = a @ g @ b" by (auto simp: sublist_def)
    then have "weave (g0 # gs) (p # ps) = (g0 @ p @ a) @ g @ b" by simp
    then show ?thesis unfolding sublist_def by blast
  qed
qed

lemma email_sub_weave:
  "\<exists>gaps ms. length gaps = Suc (length ms) \<and> list_all email_shaped ms
      \<and> s = weave gaps ms
      \<and> re_sub EMAIL_RE repl s = weave gaps (map (\<lambda>m. repl) ms)"
proof (induction s rule: length_induct)
  case (1 s)
  show ?case
  proof (cases s)
    case Nil
    have "length [[]::string] = Suc (length ([]::string list)) \<and> list_all email_shaped []
        \<and> s = weave [[]] [] \<and> re_sub EMAIL_RE repl s = weave [[]] (map (\<lambda>m. repl) [])"
      using Nil by (simp add: email_sub_Nil)
    then show ?thesis by blast
  next
    case (Cons c cs)
    show ?thesis
    proof (cases "EMAIL_RE (c # cs)")
      case None
      from 1 Cons obtain gaps ms where g: "length gaps = Suc (length ms)"
        and m: "list_all email_shaped ms" and w: "cs = weave gaps ms"
        and r: "re_sub EMAIL_RE repl cs = weave gaps (map (\<lambda>m. repl) ms)"
        by force
      from g obtain g0 gs where gaps: "gaps = g0 # gs" by (cases gaps) auto
      have "length ((c # g0) # gs) = Suc (length ms) \<and> list_all email_shaped ms
        \<and> s = weave ((c # g0) # gs) ms
        \<and> re_sub EMAIL_RE repl s = weave ((c # g0) # gs) (map (\<lambda>m. repl) ms)"
        using g m w r gaps Cons None by (simp add: weave_Cons_hd email_sub_None)
      then show ?thesis by blast
    next
      case (Some rest)
      then have "length rest \<le> length cs" by (rule EMAIL_RE_shorter)
      with Cons have "length rest < length s" by simp
      with 1 obtain gaps ms where g: "length gaps = Suc (length ms)"
        and m: "list_all email_shaped ms" and w: "rest = weave gaps ms"
        and r: "re_sub EMAIL_RE repl rest = weave gaps (map (\<lambda>m. repl) ms)"
        by force
      from Some obtain t where t: "c # cs = t @ rest" "email_shaped t"
        using EMAIL_RE_sound by blast
      have rs: "re_sub EMAIL_RE repl s = repl @ re_sub EMAIL_RE repl rest"
        unfolding Cons using Some by (rule email_sub_Some)
      have st: "s = t @ rest" using Cons t(1) by simp
      have "length ([] # gaps) = Suc (length (t # ms)) \<and> list_all email_shaped (t # ms)
        \<and> s = weave ([] # gaps) (t # ms)
        \<and> re_sub EMAIL_RE repl s = weave ([] # gaps) (map (\<lambda>m. repl) (t # ms))"
        unfolding rs r unfolding st w using g m t(2) by simp
      then show ?thesis by blast
    qed
  qed
qed

lemma email_sub_pieces:
  "\<exists>gaps ms. length gaps = Suc (length ms) \<and> list_all email_shaped ms
      \<and> list_all (\<lambda>g. \<not> has_email g) gaps
      \<and> s = weave gaps ms
      \<and> re_sub EMAIL_RE marker s = weave gaps (map (\<lambda>m. marker) ms)"
proof -
  from email_sub_weave[of s marker] obtain gaps ms where g: "length gaps = Suc (length ms)"
    and m: "list_all email_shaped ms" and w: "s = weave gaps ms"
    and r: "re_sub EMAIL_RE marker s = weave gaps (map (\<lambda>m. marker) ms)"
    by blast
  have "\<not> has_email g" if "g \<in> set gaps" for g
  proof
    assume "has_email g"
    then obtain t where t: "email_shaped t" "sublist t g" by (auto simp: has_email_def)
    from g that have "sublist g (weave gaps (map (\<lambda>m. marker) ms))"
      by (intro weave_sublist) simp_all
    then obtain a b where "re_sub EMAIL_RE marker s = a @ g @ b"
      unfolding r sublist_def by blast
    moreover from t(2) obtain a' b' where "g = a' @ t @ b'" unfolding sublist_def by blast
    ultimately have "re_sub EMAIL_RE marker s = (a @ a') @ t @ (b' @ b)" by simp
    then have "sublist t (re_sub EMAIL_RE marker s)" unfolding sublist_def by blast
    with t(1) have "has_email (re_sub EMAIL_RE marker s)" by (auto simp: has_email_def)
    with email_sub_clean show False by blast
  qed
  then have "list_all (\<lambda>g. \<not> has_email g) gaps" by (simp add: list_all_iff)
  with g m w r show ?thesis by blast
qed

subsection \<open>Collapsing white space\<close>

lemma WHITESPACE_RE_Nil: "WHITESPACE_RE [] = None"
  by (simp add: WHITESPACE_RE_def plus_bt_def)

lemma WHITESPACE_RE_Cons:
  "WHITESPACE_RE (c # cs) = (if is_space c then Some (dropWhile is_space cs) else None)"
  by (simp add: WHITESPACE_RE_def plus_bt_def star_bt_Some_total)

lemma ws_sub_Nil: "re_sub WHITESPACE_RE repl [] = []"
  by (simp add: re_sub.simps WHITESPACE_RE_Nil)

lemma ws_sub_space:
  "is_space c \<Longrightarrow>
   re_sub WHITESPACE_RE repl (c # cs) = repl @ re_sub WHITESPACE_RE repl (dropWhile is_space cs)"
  by (simp add: re_sub.simps WHITESPACE_RE_Cons length_dropWhile_le)

lemma ws_sub_other:
  "\<not> is_space c \<Longrightarrow> re_sub WHITESPACE_RE repl (c # cs) = c # re_sub WHITESPACE_RE repl cs"
  by (simp add: re_sub.simps WHITESPACE_RE_Cons)

lemma space_is_space: "is_space CHR '' ''"
  by (simp add: is_space_def)

lemma ws_sub_prefix:
  "prefix t (re_sub WHITESPACE_RE '' '' s) \<Longrightarrow> list_all (\<lambda>c. \<not> is_space c) t \<Longrightarrow> prefix t s"
proof (induction s arbitrary: t)
  case Nil
  then show ?case by (simp add: ws_sub_Nil)
next
  case (Cons c cs)
  show ?case
  proof (cases t)
    case Nil
    then show ?thesis by simp
  next
    case t: (Cons a t')
    show ?thesis
    proof (cases "is_space c")
      case True
      with Cons.prems(1) t have "a = CHR '' ''" by (simp add: ws_sub_space)
      with Cons.prems(2) t space_is_space show ?thesis by simp
    next
      case False
      with Cons.prems(1) t have "a = c" "prefix t' (re_sub WHITESPACE_RE '' '' cs)"
        by (simp_all add: ws_sub_other)
      moreover have "list_all (\<lambda>c. \<not> is_space c) t'" using Cons.prems(2) t by simp
      ultimately show ?thesis using Cons.IH t by simp
    qed
  qed
qed

lemma ws_sub_sublist:
  "sublist t (re_sub WHITESPACE_RE '' '' s) \<Longrightarrow> list_all (\<lambda>c. \<not> is_space c) t \<Longrightarrow> sublist t s"
proof (induction s rule: length_induct)
  case (1 s)
  show ?case
  proof (cases s)
    case Nil
    with "1.prems" show ?thesis by (simp add: ws_sub_Nil)
  next
    case (Cons c cs)
    show ?thesis
    proof (cases "is_space c")
      case True
      let ?rest = "dropWhile is_space cs"
      from "1.prems"(1) have "sublist t (CHR '' '' # re_sub WHITESPACE_RE '' '' ?rest)"
        by (simp add: Cons ws_sub_space[OF True])
      then consider "prefix t (CHR '' '' # re_sub WHITESPACE_RE '' '' ?rest)"
        | "sublist t (re_sub WHITESPACE_RE '' '' ?rest)"
        by (auto simp: sublist_Cons_right)
      then show ?thesis
      proof cases
        case 1
        have "t = []"
        proof (cases t)
          case Nil
          then show ?thesis .
        next
          case (Cons a t')
          with 1 have "a = CHR '' ''" by simp
          with "1.prems"(2) Cons space_is_space show ?thesis by simp
        qed
        then show ?thesis by simp
      next
        case 2
        have "length ?rest < length s" using Cons length_dropWhile_le[of is_space cs] by simp
        with "1.IH" 2 "1.prems"(2) have "sublist t ?rest" by blast
        moreover have "suffix ?rest s" unfolding Cons
          by (rule suffix_ConsI) (rule suffix_dropWhile)
        ultimately show ?thesis by (meson sublist_order.order_trans suffix_imp_sublist)
      qed
    next
      case False
      from "1.prems"(1) have "sublist t (c # re_sub WHITESPACE_RE '' '' cs)"
        by (simp add: Cons ws_sub_other[OF False])
      then consider "prefix t (c # re_sub WHITESPACE_RE '' '' cs)"
        | "sublist t (re_sub WHITESPACE_RE '' '' cs)"
        by (auto simp: sublist_Cons_right)
      then show ?thesis
      proof cases
        case 1
        then have "prefix t (re_sub WHITESPACE_RE '' '' s)" by (simp add: Cons ws_sub_other[OF False])
        then have "prefix t s" using "1.prems"(2) by (rule ws_sub_prefix)
        then show ?thesis by (rule prefix_imp_sublist)
      next
        case 2
        have "length cs < length s" using Cons by simp
        with "1.IH" 2 "1.prems"(2) have "sublist t cs" by blast
        then show ?thesis unfolding Cons by (simp add: sublist_Cons_right)
      qed
    qed
  qed
qed

lemma py_strip_sublist: "sublist (py_strip s) s"
proof -
  let ?d = "dropWhile is_space s"
  have "rev ?d = takeWhile is_space (rev ?d) @ dropWhile is_space (rev ?d)" by simp
  then have "?d = rev (dropWhile is_space (rev ?d)) @ rev (takeWhile is_space (rev ?d))"
    by (metis rev_append rev_rev_ident)
  then have "prefix (py_strip s) ?d" unfolding py_strip_def by (metis prefixI)
  moreover have "suffix ?d s" by (rule suffix_dropWhile)
  ultimately show ?thesis
    by (meson prefix_imp_sublist sublist_order.order_trans suffix_imp_sublist)
qed

lemma email_shaped_no_space:
  assumes "email_shaped t"
  shows "list_all (\<lambda>c. \<not> is_space c) t"
  using email_shaped_chars(2)[OF assms] space_not_email_char
  by (auto simp: list_all_iff)

lemma has_email_Nil: "\<not> has_email []"
  unfolding has_email_def using email_shaped_nonempty by auto

lemma clean_text_no_email: "\<not> has_email (clean_text v)"
proof (cases "v = PyNone")
  case True
  then show ?thesis by (simp add: clean_text_def has_email_Nil)
next
  case False
  let ?e = "re_sub EMAIL_RE marker (py_str v)"
  let ?w = "re_sub WHITESPACE_RE '' '' ?e"
  show ?thesis
  proof
    assume "has_email (clean_text v)"
    then obtain t where t: "email_shaped t" "sublist t (py_strip ?w)"
      unfolding has_email_def using False by (auto simp: clean_text_def)
    from t(2) py_strip_sublist[of ?w] have "sublist t ?w"
      by (meson sublist_order.order_trans)
    then have "sublist t ?e" using email_shaped_no_space[OF t(1)] by (rule ws_sub_sublist)
    with t(1) have "has_email ?e" unfolding has_email_def by blast
    with email_sub_clean show False by blast
  qed
qed

text \<open>What \<open>strip\<close> leaves of the collapsed text is its words, joined by single blanks.\<close>

lemma py_split_Nil: "dropWhile is_space s = [] \<Longrightarrow> py_split s = []"
  by (simp add: py_split.simps)

lemma py_split_lstrip: "py_split (dropWhile is_space s) = py_split s"
proof -
  have "dropWhile is_space (dropWhile is_space s) = dropWhile is_space s"
    by (rule dropWhile_idem)
  then show ?thesis by (simp add: py_split.simps[of s] py_split.simps[of "dropWhile is_space s"])
qed

lemma py_split_word:
  assumes "\<not> is_space c"
  shows "py_split (c # cs)
     = takeWhile (\<lambda>c. \<not> is_space c) (c # cs) # py_split (dropWhile (\<lambda>c. \<not> is_space c) (c # cs))"
  using assms by (simp add: py_split.simps[of "c # cs"])

lemma ws_sub_word:
  "list_all (\<lambda>c. \<not> is_space c) w \<Longrightarrow>
   re_sub WHITESPACE_RE repl (w @ r) = w @ re_sub WHITESPACE_RE repl r"
  by (induction w) (simp_all add: ws_sub_other)

lemma ws_sub_lstrip:
  "dropWhile is_space (re_sub WHITESPACE_RE '' '' s)
     = re_sub WHITESPACE_RE '' '' (dropWhile is_space s)"
proof -
  have keep: "dropWhile is_space (re_sub WHITESPACE_RE '' '' t) = re_sub WHITESPACE_RE '' '' t"
    if "t = [] \<or> \<not> is_space (hd t)" for t
  proof (cases t)
    case Nil
    then show ?thesis by (simp add: ws_sub_Nil)
  next
    case (Cons d ds)
    with that show ?thesis by (simp add: ws_sub_other)
  qed
  have lead: "dropWhile is_space t = [] \<or> \<not> is_space (hd (dropWhile is_space t))" for t
    using hd_dropWhile[of is_space t] by blast
  show ?thesis
  proof (cases s)
    case Nil
    then show ?thesis by (simp add: ws_sub_Nil)
  next
    case (Cons c cs)
    show ?thesis
    proof (cases "is_space c")
      case True
      then show ?thesis
        unfolding Cons using keep[OF lead[of cs]] by (simp add: ws_sub_space space_is_space)
    next
      case False
      then show ?thesis unfolding Cons by (simp add: ws_sub_other)
    qed
  qed
qed

lemma rstrip_append:
  assumes "\<exists>c \<in> set b. \<not> is_space c"
  shows "rev (dropWhile is_space (rev (a @ b))) = a @ rev (dropWhile is_space (rev b))"
proof -
  from assms obtain c where "c \<in> set (rev b)" "\<not> is_space c" by auto
  then have "dropWhile is_space (rev b @ rev a) = dropWhile is_space (rev b) @ rev a"
    by (rule dropWhile_append1)
  then show ?thesis by simp
qed

lemma rstrip_word:
  assumes "list_all (\<lambda>c. \<not> is_space c) w"
  shows "rev (dropWhile is_space (rev w)) = w"
  using assms by (cases w rule: rev_cases) simp_all

lemma ws_sub_words:
  "s = [] \<or> \<not> is_space (hd s) \<Longrightarrow>
   rev (dropWhile is_space (rev (re_sub WHITESPACE_RE '' '' s))) = py_join '' '' (py_split s)"
proof (induction s rule: length_induct)
  case (1 s)
  show ?case
  proof (cases s)
    case Nil
    then show ?thesis by (simp add: ws_sub_Nil py_split_Nil)
  next
    case (Cons d ds)
    with 1(2) have d: "\<not> is_space d" by simp
    let ?w = "takeWhile (\<lambda>c. \<not> is_space c) s"
    let ?r = "dropWhile (\<lambda>c. \<not> is_space c) s"
    let ?r' = "dropWhile is_space ?r"
    have w: "list_all (\<lambda>c. \<not> is_space c) ?w" by (auto simp: list_all_iff dest: set_takeWhileD)
    have wne: "?w \<noteq> []" using Cons d by simp
    have split: "py_split s = ?w # py_split ?r'"
      unfolding Cons using py_split_word[OF d, of ds] by (simp add: py_split_lstrip)
    have sub: "re_sub WHITESPACE_RE '' '' s = ?w @ re_sub WHITESPACE_RE '' '' ?r"
      using ws_sub_word[OF w, of "'' ''" ?r] by simp
    show ?thesis
    proof (cases ?r)
      case Nil
      have a: "py_split ?r' = []" unfolding Nil by (simp add: py_split_Nil)
      have b: "re_sub WHITESPACE_RE '' '' ?r = []" unfolding Nil by (rule ws_sub_Nil)
      show ?thesis unfolding split sub a b using rstrip_word[OF w] by simp
    next
      case r: (Cons c cs)
      have "?r \<noteq> []" using r by simp
      then have "\<not> \<not> is_space (hd ?r)" by (rule hd_dropWhile)
      with r have c: "is_space c" by simp
      have r': "?r' = dropWhile is_space cs" using r c by simp
      have subr: "re_sub WHITESPACE_RE '' '' ?r = '' '' @ re_sub WHITESPACE_RE '' '' ?r'"
        unfolding r using c by (simp add: ws_sub_space)
      show ?thesis
      proof (cases ?r')
        case Nil
        have a: "py_split ?r' = []" unfolding Nil by (simp add: py_split_Nil)
        have b: "re_sub WHITESPACE_RE '' '' ?r' = []" unfolding Nil by (rule ws_sub_Nil)
        have "rev (dropWhile is_space (rev (?w @ '' ''))) = ?w"
          using rstrip_word[OF w] by (simp add: space_is_space)
        then show ?thesis unfolding split sub subr a b by simp
      next
        case e: (Cons e es)
        have "?r' \<noteq> []" using e by simp
        then have "\<not> is_space (hd ?r')" by (rule hd_dropWhile)
        with e have ens: "\<not> is_space e" by simp
        have "length ?r' \<le> length ?r" by (rule length_dropWhile_le)
        also have "length ?r \<le> length ds"
          unfolding Cons using d by (simp add: length_dropWhile_le)
        also have "length ds < length s" using Cons by simp
        finally have less: "length ?r' < length s" .
        have lead: "?r' = [] \<or> \<not> is_space (hd ?r')" using hd_dropWhile[of is_space ?r] by blast
        from 1(1)[rule_format, OF less lead] have ih:
          "rev (dropWhile is_space (rev (re_sub WHITESPACE_RE '' '' ?r')))
             = py_join '' '' (py_split ?r')" .
        have "py_split ?r' \<noteq> []"
          unfolding e using py_split_word[OF ens, of es] by simp
        then obtain x xs where xs: "py_split ?r' = x # xs" by (cases "py_split ?r'") auto
        have sube: "re_sub WHITESPACE_RE '' '' ?r' = e # re_sub WHITESPACE_RE '' '' es"
          unfolding e using ens by (rule ws_sub_other)
        have ex: "\<exists>c \<in> set (re_sub WHITESPACE_RE '' '' ?r'). \<not> is_space c"
          unfolding sube using ens by auto
        have "rev (dropWhile is_space (rev (re_sub WHITESPACE_RE '' '' s)))
            = (?w @ '' '') @ rev (dropWhile is_space (rev (re_sub WHITESPACE_RE '' '' ?r')))"
          unfolding sub subr using rstrip_append[OF ex, of "?w @ '' ''"] by simp
        also have "\<dots> = ?w @ '' '' @ py_join '' '' (py_split ?r')" unfolding ih by simp
        also have "\<dots> = py_join '' '' (py_split s)" unfolding split xs by simp
        finally show ?thesis .
      qed
    qed
  qed
qed

lemma strip_ws_sub_words:
  "py_strip (re_sub WHITESPACE_RE '' '' s) = py_join '' '' (py_split s)"
proof -
  let ?t = "dropWhile is_space s"
  have "?t = [] \<or> \<not> is_space (hd ?t)" using hd_dropWhile[of is_space s] by blast
  then have "rev (dropWhile is_space (rev (re_sub WHITESPACE_RE '' '' ?t)))
      = py_join '' '' (py_split ?t)" by (rule ws_sub_words)
  then show ?thesis by (simp add: py_strip_def ws_sub_lstrip py_split_lstrip)
qed

subsection \<open>Cleaning a clean text\<close>

lemma re_sub_no_match: "\<not> re_search m s \<Longrightarrow> re_sub m repl s = s"
  by (induction s) (auto simp: re_sub.simps)

lemma single_spaced_tl: "single_spaced (c # cs) \<Longrightarrow> single_spaced cs"
  by (cases cs) auto

lemma single_spaced_suffix: "single_spaced (xs @ ys) \<Longrightarrow> single_spaced ys"
  by (induction xs) (auto dest: single_spaced_tl)

lemma single_spaced_prefix: "single_spaced (xs @ ys) \<Longrightarrow> single_spaced xs"
proof (induction xs rule: single_spaced.induct)
  case 1
  then show ?case by simp
next
  case (2 c)
  then show ?case by (cases ys) auto
next
  case (3 c d cs)
  then show ?case by auto
qed

lemma ws_sub_hd:
  "s \<noteq> [] \<Longrightarrow> \<not> is_space (hd s) \<Longrightarrow>
   re_sub WHITESPACE_RE '' '' s \<noteq> [] \<and> \<not> is_space (hd (re_sub WHITESPACE_RE '' '' s))"
  by (cases s) (auto simp: ws_sub_other)

lemma dropWhile_hd: "dropWhile p s = [] \<or> \<not> p (hd (dropWhile p s))"
  by (metis hd_dropWhile)

lemma ws_sub_single_spaced: "single_spaced (re_sub WHITESPACE_RE '' '' s)"
proof (induction s rule: length_induct)
  case (1 s)
  show ?case
  proof (cases s)
    case Nil
    then show ?thesis by (simp add: ws_sub_Nil)
  next
    case (Cons c cs)
    show ?thesis
    proof (cases "is_space c")
      case True
      let ?rest = "dropWhile is_space cs"
      let ?out = "re_sub WHITESPACE_RE '' '' ?rest"
      have "length ?rest < length s" using Cons length_dropWhile_le[of is_space cs] by simp
      with "1.IH" have ss: "single_spaced ?out" by blast
      have hd: "?out = [] \<or> \<not> is_space (hd ?out)"
      proof (cases "?rest = []")
        case True
        have "?out = []" unfolding True by (rule ws_sub_Nil)
        then show ?thesis by blast
      next
        case False
        then have "\<not> is_space (hd ?rest)" by (rule hd_dropWhile)
        with False show ?thesis using ws_sub_hd by blast
      qed
      have "single_spaced (CHR '' '' # ?out)"
        using ss hd by (cases ?out) auto
      then show ?thesis by (simp add: Cons ws_sub_space[OF True])
    next
      case False
      have "length cs < length s" using Cons by simp
      with "1.IH" have ss: "single_spaced (re_sub WHITESPACE_RE '' '' cs)" by blast
      then have "single_spaced (c # re_sub WHITESPACE_RE '' '' cs)"
        using False by (cases "re_sub WHITESPACE_RE '' '' cs") auto
      then show ?thesis by (simp add: Cons ws_sub_other[OF False])
    qed
  qed
qed

lemma single_spaced_ws_sub: "single_spaced s \<Longrightarrow> re_sub WHITESPACE_RE '' '' s = s"
proof (induction s rule: single_spaced.induct)
  case 1
  then show ?case by (simp add: ws_sub_Nil)
next
  case (2 c)
  then show ?case by (cases "is_space c") (auto simp: ws_sub_space ws_sub_other ws_sub_Nil)
next
  case (3 c d cs)
  show ?case
  proof (cases "is_space c")
    case True
    with 3 have "c = CHR '' ''" "\<not> is_space d" "re_sub WHITESPACE_RE '' '' (d # cs) = d # cs"
      by auto
    then show ?thesis using True by (simp add: ws_sub_space)
  next
    case False
    with 3 show ?thesis by (simp add: ws_sub_other)
  qed
qed

lemma py_strip_prefix_suffix: "\<exists>a b. s = a @ py_strip s @ b"
  using py_strip_sublist[of s] unfolding sublist_def by blast

lemma single_spaced_strip: "single_spaced s \<Longrightarrow> single_spaced (py_strip s)"
proof -
  assume ss: "single_spaced s"
  obtain a b where "s = a @ py_strip s @ b" using py_strip_prefix_suffix by blast
  with ss have "single_spaced (a @ py_strip s @ b)" by simp
  then have "single_spaced (py_strip s @ b)" by (rule single_spaced_suffix)
  then show ?thesis by (rule single_spaced_prefix)
qed

lemma dropWhile_id: "s = [] \<or> \<not> p (hd s) \<Longrightarrow> dropWhile p s = s"
  by (cases s) auto

lemma py_strip_idem: "py_strip (py_strip s) = py_strip s"
proof -
  let ?d = "dropWhile is_space s"
  let ?e = "dropWhile is_space (rev ?d)"
  have z: "py_strip s = rev ?e" by (simp add: py_strip_def)
  have e_hd: "?e = [] \<or> \<not> is_space (hd ?e)" by (rule dropWhile_hd)
  have "rev ?e = [] \<or> \<not> is_space (hd (rev ?e))"
  proof (cases "?e = []")
    case True
    then show ?thesis by simp
  next
    case False
    then have ne: "rev ?d \<noteq> []" by (metis dropWhile.simps(1))
    have "?d \<noteq> []" using ne by simp
    then have d_hd: "\<not> is_space (hd ?d)" by (rule hd_dropWhile)
    have "\<not> is_space (last (rev ?d))" using d_hd \<open>?d \<noteq> []\<close> by (simp add: last_rev)
    have "rev ?d = takeWhile is_space (rev ?d) @ ?e" by simp
    then have "last ?e = last (rev ?d)" using False by (metis last_appendR)
    then have "hd (rev ?e) = hd ?d" using False \<open>?d \<noteq> []\<close> by (simp add: hd_rev last_rev)
    with d_hd show ?thesis by simp
  qed
  then have "dropWhile is_space (rev ?e) = rev ?e" by (rule dropWhile_id)
  moreover have "dropWhile is_space ?e = ?e" using e_hd by (rule dropWhile_id)
  ultimately show ?thesis unfolding py_strip_def by simp
qed

subsection \<open>A text that is one address; commas\<close>

lemma star_bt_first:
  "list_all p m \<Longrightarrow> k m = Some x \<Longrightarrow> (\<And>n. 0 < n \<Longrightarrow> n \<le> length m \<Longrightarrow> k (drop n m) = None)
   \<Longrightarrow> star_bt p k m = Some x"
proof (cases m)
  case Nil
  assume "k m = Some x"
  with Nil show ?thesis by simp
next
  case (Cons c m')
  assume all: "list_all p m" and km: "k m = Some x"
    and none: "\<And>n. 0 < n \<Longrightarrow> n \<le> length m \<Longrightarrow> k (drop n m) = None"
  have "star_bt p k m' = None"
    unfolding star_bt_None_iff
  proof (intro allI impI)
    fix n assume "n \<le> length (takeWhile p m')"
    moreover have "length (takeWhile p m') \<le> length m'" by (rule length_takeWhile_le)
    ultimately have "Suc n \<le> length m" using Cons by simp
    with none[of "Suc n"] show "k (drop n m') = None" using Cons by simp
  qed
  with all km Cons show ?thesis by simp
qed

lemma star_bt_skip:
  "list_all p l \<Longrightarrow> star_bt p k m = Some x \<Longrightarrow> star_bt p k (l @ m) = Some x"
  by (induction l) auto

lemma dot_not_word: "\<not> is_word CHR ''.''"
  by (simp add: is_word_def is_alnum_def)

lemma lit_dot_word_suffix:
  assumes "list_all is_word w"
  shows "lit CHR ''.'' k (drop n w) = None"
proof (cases "drop n w")
  case Nil
  then show ?thesis by (simp add: lit_def)
next
  case (Cons c cs)
  then have "c \<in> set w" by (metis in_set_dropD list.set_intros(1))
  with assms have "is_word c" by (simp add: list_all_iff)
  with dot_not_word have "c \<noteq> CHR ''.''" by auto
  with Cons show ?thesis by (simp add: lit_def)
qed

lemma EMAIL_RE_whole:
  assumes "email_shaped s"
  shows "EMAIL_RE s = Some []"
proof -
  let ?k3 = "plus_bt is_word Some"
  let ?k2 = "plus_bt email_class (lit CHR ''.'' ?k3)"
  from assms obtain l d w where s: "s = l @ CHR ''@'' # d @ CHR ''.'' # w"
    and l: "l \<noteq> []" "list_all email_class l"
    and d: "d \<noteq> []" "list_all email_class d"
    and w: "w \<noteq> []" "list_all is_word w"
    unfolding email_shaped_def by blast
  obtain wc ws where wc: "w = wc # ws" using w(1) by (cases w) auto
  have "dropWhile is_word ws = []" using w(2) wc by (simp add: list_all_iff)
  then have k3: "?k3 w = Some []"
    using w(2) wc by (simp add: plus_bt_def star_bt_Some_total)
  let ?m = "CHR ''.'' # w"
  have m_all: "list_all email_class ?m"
    using w(2) by (auto simp: list_all_iff email_class_def)
  have m_k: "lit CHR ''.'' ?k3 ?m = Some []" using k3 by (simp add: lit_def)
  have m_none: "\<And>n. 0 < n \<Longrightarrow> n \<le> length ?m \<Longrightarrow> lit CHR ''.'' ?k3 (drop n ?m) = None"
  proof -
    fix n :: nat assume "0 < n"
    then obtain n' where "n = Suc n'" by (cases n) auto
    then show "lit CHR ''.'' ?k3 (drop n ?m) = None"
      using lit_dot_word_suffix[OF w(2)] by simp
  qed
  have "star_bt email_class (lit CHR ''.'' ?k3) ?m = Some []"
    using m_all m_k m_none by (rule star_bt_first)
  obtain dc ds where dc: "d = dc # ds" using d(1) by (cases d) auto
  have "star_bt email_class (lit CHR ''.'' ?k3) (ds @ ?m) = Some []"
    using d(2) dc \<open>star_bt email_class (lit CHR ''.'' ?k3) ?m = Some []\<close>
    by (intro star_bt_skip) simp_all
  then have k2: "?k2 (d @ ?m) = Some []" using d(2) dc by (simp add: plus_bt_def)
  let ?r = "CHR ''@'' # d @ ?m"
  have "star_bt email_class (lit CHR ''@'' ?k2) ?r = Some []"
    using k2 at_not_class by (simp add: lit_def)
  obtain lc ls where lc: "l = lc # ls" using l(1) by (cases l) auto
  have "star_bt email_class (lit CHR ''@'' ?k2) (ls @ ?r) = Some []"
    using l(2) lc \<open>star_bt email_class (lit CHR ''@'' ?k2) ?r = Some []\<close>
    by (intro star_bt_skip) simp_all
  then have "plus_bt email_class (lit CHR ''@'' ?k2) (l @ ?r) = Some []"
    using l(2) lc by (simp add: plus_bt_def)
  then show ?thesis by (simp add: EMAIL_RE_def s)
qed

lemma marker_tidy: "py_strip (re_sub WHITESPACE_RE '' '' marker) = marker"
  by code_simp

lemma clean_text_whole_email:
  assumes "email_shaped s"
  shows "clean_text (PyStr s) = marker"
proof -
  obtain c cs where s: "s = c # cs" using email_shaped_nonempty[OF assms] by (cases s) auto
  have "EMAIL_RE (c # cs) = Some []" using EMAIL_RE_whole[OF assms] s by simp
  then have "re_sub EMAIL_RE marker (c # cs) = marker @ re_sub EMAIL_RE marker []"
    by (rule email_sub_Some)
  then have "re_sub EMAIL_RE marker s = marker" by (simp add: s email_sub_Nil)
  then show ?thesis by (simp add: clean_text_def marker_tidy)
qed

lemma replace_from_comma:
  "replace_from '','' ''.'' s = map (\<lambda>c. if c = CHR '','' then CHR ''.'' else c) s"
  by (induction s) auto

lemma py_replace_comma:
  "py_replace '','' ''.'' s = map (\<lambda>c. if c = CHR '','' then CHR ''.'' else c) s"
  by (simp add: py_replace_def replace_from_comma)

subsection \<open>Series, sorting and counting\<close>

lemma dropna_num_conv: "dropna_num s = map the (filter (\<lambda>x. x \<noteq> None) s)"
  by (simp add: dropna_num_def List.map_filter_def comp_def)

lemma dropna_num_Nil [simp]: "dropna_num [] = []"
  by (simp add: dropna_num_conv)

lemma dropna_num_Cons [simp]:
  "dropna_num (x # s) = (case x of None \<Rightarrow> dropna_num s | Some y \<Rightarrow> y # dropna_num s)"
  by (simp add: dropna_num_conv split: option.splits)

lemma dropna_num_append [simp]: "dropna_num (a @ b) = dropna_num a @ dropna_num b"
  by (simp add: dropna_num_conv)

lemma dropna_num_map_Some [simp]: "dropna_num (map Some xs) = xs"
  by (induction xs) auto

lemma length_dropna_num_le: "length (dropna_num s) \<le> length s"
  by (simp add: dropna_num_conv)


lemma set_unique [simp]: "set (unique xs) = set xs"
  by (simp add: unique_def)

lemma distinct_unique [simp]: "distinct (unique xs)"
  by (simp add: unique_def)

lemma length_unique: "length (unique xs) = card (set xs)"
  using distinct_card[of "unique xs"] by simp

lemma half_present_iff:
  assumes "s \<noteq> []"
  shows "(case notna_mean s of None \<Rightarrow> False | Some f \<Rightarrow> 1 / 2 \<le> f)
         \<longleftrightarrow> length s \<le> 2 * length (dropna_num s)"
proof -
  let ?a = "length (dropna_num s)" and ?n = "length s"
  have n: "0 < ?n" using assms by simp
  then have pos: "(0::rat) < of_nat ?n" by simp
  have "(1 / 2 \<le> (of_nat ?a :: rat) / of_nat ?n) \<longleftrightarrow> (of_nat ?n :: rat) \<le> 2 * of_nat ?a"
    using pos by (simp add: field_simps)
  also have "\<dots> \<longleftrightarrow> (of_nat ?n :: rat) \<le> of_nat (2 * ?a)" by simp
  also have "\<dots> \<longleftrightarrow> ?n \<le> 2 * ?a" by (rule of_nat_le_iff)
  finally show ?thesis using assms by (simp add: notna_mean_def)
qed

lemma half_present_nonempty:
  assumes "(case notna_mean s of None \<Rightarrow> False | Some f \<Rightarrow> 1 / 2 \<le> f)"
  shows "s \<noteq> []" and "dropna_num s \<noteq> []"
proof -
  show ne: "s \<noteq> []" using assms by (auto simp: notna_mean_def)
  from half_present_iff[OF ne] assms have "length s \<le> 2 * length (dropna_num s)" by simp
  with ne show "dropna_num s \<noteq> []" by (cases s) auto
qed

lemma in_numeric_cols_iff:
  "c \<in> set (numeric_cols h df) \<longleftrightarrow>
     c \<in> set (columns (df_work h df))
     \<and> (case notna_mean (to_numeric_series (column (df_work h df) c)) of
           None \<Rightarrow> False | Some f \<Rightarrow> 1 / 2 \<le> f)
     \<and> length (unique (dropna_num (to_numeric_series (column (df_work h df) c)))) \<le> 20"
  by (simp add: numeric_cols_def Let_def)

lemma length_to_numeric_series [simp]: "length (to_numeric_series s) = length s"
  by (simp add: to_numeric_series_def)

lemma to_numeric_series_Nil_iff [simp]: "to_numeric_series s = [] \<longleftrightarrow> s = []"
  by (simp add: to_numeric_series_def)

lemma series_mean_present:
  "dropna_num s \<noteq> [] \<Longrightarrow>
   series_mean s = div_f (sum_f (dropna_num s)) (length (dropna_num s))"
  by (simp add: series_mean_def Let_def)

lemma series_mean_absent: "dropna_num s = [] \<Longrightarrow> series_mean s = None"
  by (simp add: series_mean_def)

lemma foldl_add_f_fin:
  "foldl add_f (Some (Fin a)) (map Fin ys) = Some (Fin (a + sum_list ys))"
  by (induction ys arbitrary: a) (simp_all add: add.assoc)

lemma sum_f_fin: "sum_f (map Fin ys) = Some (Fin (sum_list ys))"
  by (simp add: sum_f_def foldl_add_f_fin)

lemma add_f_None_iff:
  "add_f acc x = None \<longleftrightarrow>
     acc = None \<or> (acc = Some PosInf \<and> x = NegInf) \<or> (acc = Some NegInf \<and> x = PosInf)"
  by (cases "(acc, x)" rule: add_f.cases) simp_all

lemma add_f_PosInf_iff:
  "add_f acc x = Some PosInf \<longleftrightarrow>
     (acc = Some PosInf \<and> x \<noteq> NegInf) \<or> ((\<exists>a. acc = Some (Fin a)) \<and> x = PosInf)"
  by (cases "(acc, x)" rule: add_f.cases) simp_all

lemma add_f_NegInf_iff:
  "add_f acc x = Some NegInf \<longleftrightarrow>
     (acc = Some NegInf \<and> x \<noteq> PosInf) \<or> ((\<exists>a. acc = Some (Fin a)) \<and> x = NegInf)"
  by (cases "(acc, x)" rule: add_f.cases) simp_all

lemma foldl_add_f_None_iff:
  "foldl add_f acc xs = None \<longleftrightarrow>
     acc = None
     \<or> ((acc = Some PosInf \<or> PosInf \<in> set xs) \<and> (acc = Some NegInf \<or> NegInf \<in> set xs))"
proof (induction xs arbitrary: acc)
  case Nil
  then show ?case by auto
next
  case (Cons x xs)
  show ?case
  proof (cases acc)
    case None
    then show ?thesis by (simp add: Cons.IH)
  next
    case (Some a)
    then show ?thesis by (cases a; cases x) (auto simp: Cons.IH)
  qed
qed

lemma sum_f_None_iff: "sum_f xs = None \<longleftrightarrow> PosInf \<in> set xs \<and> NegInf \<in> set xs"
  by (simp add: sum_f_def foldl_add_f_None_iff)

lemma div_f_None_iff: "div_f a n = None \<longleftrightarrow> a = None"
  by (cases "(a, n)" rule: div_f.cases) simp_all

lemma series_mean_None_iff:
  "series_mean s = None \<longleftrightarrow>
     dropna_num s = [] \<or> (PosInf \<in> set (dropna_num s) \<and> NegInf \<in> set (dropna_num s))"
  by (simp add: series_mean_def Let_def div_f_None_iff sum_f_None_iff)

lemma series_mean_fin:
  assumes "dropna_num s = map Fin ys" and "ys \<noteq> []"
  shows "series_mean s = Some (Fin (sum_list ys / of_nat (length ys)))"
  using assms by (simp add: series_mean_def Let_def sum_f_fin)

lemma numeric_col_present:
  assumes "c \<in> set (numeric_cols h df)"
  shows "dropna_num (to_numeric_series (column (df_work h df) c)) \<noteq> []"
proof -
  from assms have "(case notna_mean (to_numeric_series (column (df_work h df) c)) of
           None \<Rightarrow> False | Some f \<Rightarrow> 1 / 2 \<le> f)"
    by (simp add: in_numeric_cols_iff)
  then show ?thesis by (rule half_present_nonempty(2))
qed

lemma numeric_col_mean:
  assumes "c \<in> set (numeric_cols h df)"
  shows "series_mean (to_numeric_series (column (df_work h df) c)) =
         div_f (sum_f (dropna_num (to_numeric_series (column (df_work h df) c))))
               (length (dropna_num (to_numeric_series (column (df_work h df) c))))"
  using numeric_col_present[OF assms] by (rule series_mean_present)





lemma sort_values_desc_set: "sort_values_desc before rows out \<Longrightarrow> set out = set rows"
  by (metis sort_values_desc_def set_mset_mset)








subsection \<open>Evaluation rules and small facts\<close>

lemma str_nat_small: "n < 10 \<Longrightarrow> str_nat n = [digit_char n]"
  by (simp add: str_nat.simps)

lemmas num_eval = to_numeric_series_def py_replace_comma pd_to_numeric_def parse_decimal_def
  parse_infinity_def parse_exponent_def pow10_def digits_val_def digit_val_def is_digit_def
  is_c_space_def Let_def str_int_def str_nat_small digit_char_def py_lower_def lower_char_def
  is_upper_def

lemmas mean_eval = series_mean_def sum_f_def

lemmas text_eval = clean_text_def re_sub.simps EMAIL_RE_def WHITESPACE_RE_def plus_bt_def lit_def
  marker_def email_class_def is_word_def is_alnum_def is_space_def py_strip_def

lemmas name_eval = is_email_col_def is_name_col_def is_comment_col_def py_lower_def lower_char_def
  is_upper_def py_in_def sublist_code guess_timestamp_col_def preferred_def Let_def

lemmas frame_eval = columns_def column_def df_work_def id_cols_def drop_columns_def dropna_def
  isna_def nice_col_def

lemmas sort_eval = means_def freq_def sort_values_desc_def mean_before_def count_before_def

lemma series_mean_present_only: "series_mean s = series_mean (map Some (dropna_num s))"
  by (simp add: series_mean_def)

lemma series_mean_drop_missing: "series_mean (a @ None # b) = series_mean (a @ b)"
  by (simp add: series_mean_def)

lemma df_work_subset: "set (df_work h df) \<subseteq> set df"
  by (auto simp: df_work_def drop_columns_def)

lemma column_nonempty:
  assumes "wf_frame df" and "\<not> df_empty df" and "c \<in> set (columns (df_work h df))"
  shows "column (df_work h df) c \<noteq> []"
proof -
  from assms(2) obtain c0 xs0 rest where df: "df = (c0, xs0) # rest" and ne: "xs0 \<noteq> []"
    by (auto simp: df_empty_def split: list.splits prod.splits)
  from assms(3) obtain xs where "map_of (df_work h df) c = Some xs"
    by (metis columns_def domD dom_map_of_conv_image_fst list.set_map)
  then have col: "column (df_work h df) c = xs" and "(c, xs) \<in> set (df_work h df)"
    by (simp_all add: column_def map_of_SomeD)
  then have "(c, xs) \<in> set df" using df_work_subset by blast
  with assms(1) have "length xs = length xs0"
    by (auto simp: wf_frame_def list_all_iff df)
  with ne col show ?thesis by auto
qed






lemma columns_drop_columns: "set (columns (drop_columns names df)) = set (columns df) - set names"
  by (auto simp: columns_def drop_columns_def)

lemma identifying_not_in_df_work:
  assumes "is_email_col c \<or> is_name_col c"
  shows "c \<notin> set (columns (df_work True df))"
proof (cases "c \<in> set (columns df)")
  case True
  with assms have in_id: "c \<in> set (id_cols df)" by (simp add: id_cols_def)
  then have "id_cols df \<noteq> []" by auto
  with in_id show ?thesis by (simp add: df_work_def columns_drop_columns)
next
  case False
  have "set (columns (df_work True df)) \<subseteq> set (columns df)"
    by (auto simp: df_work_def columns_drop_columns)
  with False show ?thesis by blast
qed

section \<open>Properties of the specification\<close>

subsection \<open>Cleaning a text\<close>

lemma email_shaped_example: "email_shaped ''a@b.co''"
  unfolding email_shaped_def
  by (rule exI[of _ "''a''"], rule exI[of _ "''b''"], rule exI[of _ "''co''"])
     (simp add: email_class_def is_word_def is_alnum_def)

text \<open>
  C6. \<open>clean_text\<close> maps \<open>None\<close> and the empty string to the empty string; the
  missing cells of a column do not reach it, what is cleaned is the \<open>str\<close> of the cells
  that \<open>dropna\<close> has kept. The substitution cuts the text into addresses and the pieces
  between them: every address has the shape of an e-mail address, no piece between them
  holds one, every address is replaced by exactly the marker \<open>[e-mail removido]\<close> and the
  pieces between them are kept. The result is the words of the substituted text joined
  by single blanks: white space is left only as single blanks between other characters,
  and none at either end. The result never holds a piece that has the shape of an e-mail
  address, and a text that is one address becomes exactly the marker. Cleaning
  \<open>contact me at a.b-c@d.com today\<close> gives \<open>contact me at [e-mail removido] today\<close>.
\<close>

theorem clean_text_scrubs:
  "clean_text PyNone = []
   \<and> clean_text (PyStr []) = []
   \<and> cleaned df c
       = map (\<lambda>v. clean_text (PyStr (py_str v))) (filter (\<lambda>v. \<not> isna v) (column df c))
   \<and> (\<exists>gaps ms. length gaps = Suc (length ms)
         \<and> list_all email_shaped ms
         \<and> list_all (\<lambda>g. \<not> has_email g) gaps
         \<and> s = weave gaps ms
         \<and> re_sub EMAIL_RE marker s = weave gaps (map (\<lambda>m. marker) ms))
   \<and> (v \<noteq> PyNone \<longrightarrow>
        clean_text v = py_join '' '' (py_split (re_sub EMAIL_RE marker (py_str v))))
   \<and> \<not> has_email (clean_text v)
   \<and> (email_shaped s \<longrightarrow> clean_text (PyStr s) = marker)
   \<and> single_spaced (clean_text v)
   \<and> py_strip (clean_text v) = clean_text v
   \<and> clean_text (PyStr ''contact me at a.b-c@d.com today'')
       = ''contact me at [e-mail removido] today''"
proof -
  have one: "clean_text PyNone = []" by (simp add: clean_text_def)
  have two: "clean_text (PyStr []) = []"
    by (simp add: clean_text_def email_sub_Nil ws_sub_Nil py_strip_def)
  have calls: "cleaned df c
       = map (\<lambda>v. clean_text (PyStr (py_str v))) (filter (\<lambda>v. \<not> isna v) (column df c))"
    by (simp add: cleaned_def dropna_def)
  have words: "clean_text v = py_join '' '' (py_split (re_sub EMAIL_RE marker (py_str v)))"
    if "v \<noteq> PyNone"
    using that by (simp add: clean_text_def strip_ws_sub_words)
  have tidy: "single_spaced (clean_text v) \<and> py_strip (clean_text v) = clean_text v"
  proof (cases "v = PyNone")
    case True
    then show ?thesis by (simp add: clean_text_def py_strip_def)
  next
    case False
    then show ?thesis
      by (simp add: clean_text_def ws_sub_single_spaced single_spaced_strip py_strip_idem)
  qed
  have ex: "clean_text (PyStr ''contact me at a.b-c@d.com today'')
       = ''contact me at [e-mail removido] today''"
    by code_simp
  show ?thesis
    using one two calls email_sub_pieces[of s] words clean_text_no_email[of v]
      clean_text_whole_email[of s] tidy ex
    by blast
qed

text \<open>The theorem at two addresses around a comma and a tab, and at a text that is
  one address.\<close>

theorem clean_text_scrubs_witness:
  "email_shaped ''a@b.co''
   \<and> clean_text (PyStr ''a@b.co'') = marker
   \<and> PyStr (''  ana@x.org ,'' @ [CHR 0x09] @ ''b@y.z  '') \<noteq> PyNone
   \<and> clean_text (PyStr (''  ana@x.org ,'' @ [CHR 0x09] @ ''b@y.z  ''))
       = py_join '' ''
           (py_split (re_sub EMAIL_RE marker (''  ana@x.org ,'' @ [CHR 0x09] @ ''b@y.z  '')))
   \<and> \<not> has_email (clean_text (PyStr (''  ana@x.org ,'' @ [CHR 0x09] @ ''b@y.z  '')))
   \<and> clean_text (PyStr (''  ana@x.org ,'' @ [CHR 0x09] @ ''b@y.z  ''))
       = ''[e-mail removido] , [e-mail removido]''"
proof -
  have a: "clean_text (PyStr (''  ana@x.org ,'' @ [CHR 0x09] @ ''b@y.z  ''))
       = ''[e-mail removido] , [e-mail removido]''" by code_simp
  have b: "PyStr (''  ana@x.org ,'' @ [CHR 0x09] @ ''b@y.z  '') \<noteq> PyNone" by simp
  show ?thesis
    using clean_text_scrubs[where v = "PyStr (''  ana@x.org ,'' @ [CHR 0x09] @ ''b@y.z  '')"
        and s = "''a@b.co''" and df = "[]" and c = "[]"]
      email_shaped_example a b
    unfolding py_str.simps by blast
qed

text \<open>
  C7. \<open>clean_text\<close> is idempotent: cleaning what it returned returns the same text,
  for every input.
\<close>

theorem clean_text_idempotent:
  "clean_text (PyStr (clean_text v)) = clean_text v"
proof -
  let ?T = "clean_text v"
  have "\<not> re_search EMAIL_RE ?T"
    using clean_text_no_email[of v] by (simp add: has_email_iff_search)
  then have e: "re_sub EMAIL_RE marker ?T = ?T" by (rule re_sub_no_match)
  have ss: "single_spaced ?T \<and> py_strip ?T = ?T"
  proof (cases "v = PyNone")
    case True
    then show ?thesis by (simp add: clean_text_def py_strip_def)
  next
    case False
    then have T: "?T = py_strip (re_sub WHITESPACE_RE '' '' (re_sub EMAIL_RE marker (py_str v)))"
      by (simp add: clean_text_def)
    show ?thesis unfolding T
      by (simp add: ws_sub_single_spaced single_spaced_strip py_strip_idem)
  qed
  then have w: "re_sub WHITESPACE_RE '' '' ?T = ?T" by (simp add: single_spaced_ws_sub)
  show ?thesis
    using e w ss by (simp add: clean_text_def[of "PyStr (clean_text v)"])
qed

subsection \<open>Numeric coercion and the numeric indicators\<close>

text \<open>
  C10. \<open>to_numeric_series\<close> parses the text of each value with every comma replaced by
  a dot: \<open>1,234\<close> becomes \<open>1.234\<close>, not \<open>1234\<close>, and \<open>1,234.5\<close> becomes missing.
\<close>

theorem to_numeric_series_commas:
  "to_numeric_series series
     = map (\<lambda>v. pd_to_numeric (map (\<lambda>c. if c = CHR '','' then CHR ''.'' else c) (py_str v))) series
   \<and> to_numeric_series [PyStr ''1,234''] = [Some (Fin (617 / 500))]
   \<and> to_numeric_series [PyStr ''1,234''] \<noteq> [Some (Fin 1234)]
   \<and> to_numeric_series [PyStr ''1,234.5''] = [None]"
proof -
  have gen: "to_numeric_series series
     = map (\<lambda>v. pd_to_numeric (map (\<lambda>c. if c = CHR '','' then CHR ''.'' else c) (py_str v))) series"
    by (simp add: to_numeric_series_def py_replace_comma)
  have a: "to_numeric_series [PyStr ''1,234''] = [Some (Fin (617 / 500))]" by (simp add: num_eval)
  have b: "to_numeric_series [PyStr ''1,234.5''] = [None]" by (simp add: num_eval)
  have "(617 / 500 :: rat) \<noteq> 1234" by simp
  with a have c: "to_numeric_series [PyStr ''1,234''] \<noteq> [Some (Fin 1234)]" by simp
  from gen a b c show ?thesis by blast
qed

text \<open>
  C8. Numeric coercion maps \<open>4,5\<close> to \<open>9/2\<close>, and \<open>n/a\<close>, the empty string and the
  missing values to missing, one result per cell. A missing value does not enter the
  mean: the mean is taken over the present values only, it is their arithmetic mean when
  they are finite, and there is none when no value is present. The score tile shows the
  dash exactly when there is no score column or the mean of its column is undefined: no
  value is present, or both infinities are (their sum is \<open>NaN\<close>).
\<close>

theorem missing_values:
  "to_numeric_series [PyStr ''4,5''] = [Some (Fin (9 / 2))]
   \<and> to_numeric_series [PyStr ''n/a'', PyStr [], PyNaN, PyNone] = [None, None, None, None]
   \<and> length (to_numeric_series series) = length series
   \<and> series_mean (a @ None # b) = series_mean (a @ b)
   \<and> series_mean (map (\<lambda>y. Some (Fin y)) ys)
       = (if ys = [] then None else Some (Fin (sum_list ys / of_nat (length ys))))
   \<and> series_mean s = series_mean (map Some (dropna_num s))
   \<and> (mean_text (series_mean s) = Dash)
       = (dropna_num s = [] \<or> (PosInf \<in> set (dropna_num s) \<and> NegInf \<in> set (dropna_num s)))
   \<and> (mean_score_metric df = Dash)
       = (case score_col df of
            None \<Rightarrow> True
          | Some c \<Rightarrow>
              dropna_num (to_numeric_series (column df c)) = []
              \<or> (PosInf \<in> set (dropna_num (to_numeric_series (column df c)))
                 \<and> NegInf \<in> set (dropna_num (to_numeric_series (column df c)))))"
proof -
  have a: "to_numeric_series [PyStr ''4,5''] = [Some (Fin (9 / 2))]" by (simp add: num_eval)
  have b: "to_numeric_series [PyStr ''n/a'', PyStr [], PyNaN, PyNone] = [None, None, None, None]"
    by (simp add: num_eval)
  have c: "series_mean (map (\<lambda>y. Some (Fin y)) ys)
       = (if ys = [] then None else Some (Fin (sum_list ys / of_nat (length ys))))"
  proof (cases "ys = []")
    case True
    then show ?thesis by (simp add: series_mean_def)
  next
    case False
    have "dropna_num (map (\<lambda>y. Some (Fin y)) ys) = map Fin ys"
      using dropna_num_map_Some[of "map Fin ys"] by (simp add: comp_def)
    then show ?thesis using False by (simp add: series_mean_fin)
  qed
  have d: "(mean_text (series_mean s) = Dash)
       = (dropna_num s = [] \<or> (PosInf \<in> set (dropna_num s) \<and> NegInf \<in> set (dropna_num s)))" for s
  proof -
    have "(mean_text (series_mean s) = Dash) = (series_mean s = None)"
      by (simp add: mean_text_def split: option.splits)
    then show ?thesis by (simp add: series_mean_None_iff)
  qed
  have e: "(mean_score_metric df = Dash)
       = (case score_col df of
            None \<Rightarrow> True
          | Some c \<Rightarrow>
              dropna_num (to_numeric_series (column df c)) = []
              \<or> (PosInf \<in> set (dropna_num (to_numeric_series (column df c)))
                 \<and> NegInf \<in> set (dropna_num (to_numeric_series (column df c)))))"
    by (simp add: mean_score_metric_def d split: option.splits)
  show ?thesis
    using a b c d[of s] e series_mean_drop_missing[of a b] series_mean_present_only[of s]
    by simp
qed

text \<open>
  C2. In a table that is not empty, a column of \<open>df_work\<close> is a numeric indicator if
  and only if at least half of its cells parse as numbers and the parsed values that are
  present have at most 20 distinct members. Its row in the table of means holds the
  mean of the present values only: their sum divided by their number, which for finite
  values is their arithmetic mean. The column \<open>[1, 2, 1, 1, 2, missing]\<close> is a numeric
  indicator with mean \<open>7/5\<close>.
\<close>

theorem numeric_indicator_test:
  "(wf_frame df \<and> \<not> df_empty df \<and> c \<in> set (columns (df_work h df)) \<longrightarrow>
      (c \<in> set (numeric_cols h df)
       \<longleftrightarrow> (let s = to_numeric_series (column (df_work h df) c)
            in length s \<le> 2 * length (dropna_num s) \<and> card (set (dropna_num s)) \<le> 20)))
   \<and> (c \<in> set (numeric_cols h df) \<longrightarrow>
        (let xs = dropna_num (to_numeric_series (column (df_work h df) c))
         in xs \<noteq> []
            \<and> (nice_col c, div_f (sum_f xs) (length xs)) \<in> set (means_rows h df)
            \<and> (means h df out \<longrightarrow> (nice_col c, div_f (sum_f xs) (length xs)) \<in> set out)))
   \<and> (c \<in> set (numeric_cols h df)
       \<and> dropna_num (to_numeric_series (column (df_work h df) c)) = map Fin ys \<longrightarrow>
        (nice_col c, Some (Fin (sum_list ys / of_nat (length ys)))) \<in> set (means_rows h df)
        \<and> (means h df out \<longrightarrow>
             (nice_col c, Some (Fin (sum_list ys / of_nat (length ys)))) \<in> set out))
   \<and> numeric_cols True [(''Q1'', [PyInt 1, PyInt 2, PyInt 1, PyInt 1, PyInt 2, PyNaN])] = [''Q1'']
   \<and> means_rows True [(''Q1'', [PyInt 1, PyInt 2, PyInt 1, PyInt 1, PyInt 2, PyNaN])]
       = [(Whole ''Q1'', Some (Fin (7 / 5)))]"
proof -
  let ?s = "to_numeric_series (column (df_work h df) c)"
  let ?xs = "dropna_num ?s"
  let ?row = "(nice_col c, div_f (sum_f ?xs) (length ?xs))"
  have iff: "c \<in> set (numeric_cols h df)
       \<longleftrightarrow> length ?s \<le> 2 * length ?xs \<and> card (set ?xs) \<le> 20"
    if "wf_frame df" and "\<not> df_empty df" and "c \<in> set (columns (df_work h df))"
  proof -
    from that have "column (df_work h df) c \<noteq> []" by (rule column_nonempty)
    then have "?s \<noteq> []" by simp
    then have "(case notna_mean ?s of None \<Rightarrow> False | Some f \<Rightarrow> 1 / 2 \<le> f)
        \<longleftrightarrow> length ?s \<le> 2 * length ?xs"
      by (rule half_present_iff)
    with that(3) show ?thesis by (simp add: in_numeric_cols_iff length_unique)
  qed
  have mean_row: "(nice_col c, series_mean ?s) \<in> set (means_rows h df)"
    if "c \<in> set (numeric_cols h df)"
    using that by (auto simp: means_rows_def)
  have row: "?row \<in> set (means_rows h df)" if "c \<in> set (numeric_cols h df)"
    using mean_row[OF that] numeric_col_mean[OF that] by simp
  have same: "set out = set (means_rows h df)" if "means h df out"
  proof -
    from that have "sort_values_desc mean_before (means_rows h df) out"
      by (simp add: means_def)
    then show ?thesis by (rule sort_values_desc_set)
  qed
  have fin: "(nice_col c, Some (Fin (sum_list ys / of_nat (length ys)))) \<in> set (means_rows h df)"
    if "c \<in> set (numeric_cols h df)" and "?xs = map Fin ys"
  proof -
    from numeric_col_present[OF that(1)] that(2) have "ys \<noteq> []" by auto
    with that(2) have "series_mean ?s = Some (Fin (sum_list ys / of_nat (length ys)))"
      by (rule series_mean_fin)
    with mean_row[OF that(1)] show ?thesis by simp
  qed
  have ex1: "numeric_cols True [(''Q1'', [PyInt 1, PyInt 2, PyInt 1, PyInt 1, PyInt 2, PyNaN])] = [''Q1'']"
    by (simp add: numeric_cols_def notna_mean_def unique_def frame_eval name_eval num_eval)
  have ex2: "means_rows True [(''Q1'', [PyInt 1, PyInt 2, PyInt 1, PyInt 1, PyInt 2, PyNaN])]
       = [(Whole ''Q1'', Some (Fin (7 / 5)))]"
    unfolding means_rows_def ex1
    by (simp add: mean_eval frame_eval name_eval num_eval)
  show ?thesis
    unfolding Let_def using iff row same fin numeric_col_present[of c h df] ex1 ex2 by blast
qed

theorem numeric_indicator_test_witness:
  "wf_frame [(''Nome'', [PyStr ''Ana'', PyStr ''Rui'']), (''Nota'', [PyStr ''4,5'', PyStr ''x''])]
   \<and> \<not> df_empty [(''Nome'', [PyStr ''Ana'', PyStr ''Rui'']), (''Nota'', [PyStr ''4,5'', PyStr ''x''])]
   \<and> ''Nota'' \<in> set (columns (df_work True
       [(''Nome'', [PyStr ''Ana'', PyStr ''Rui'']), (''Nota'', [PyStr ''4,5'', PyStr ''x''])]))
   \<and> ''Nota'' \<in> set (numeric_cols True
       [(''Nome'', [PyStr ''Ana'', PyStr ''Rui'']), (''Nota'', [PyStr ''4,5'', PyStr ''x''])])
   \<and> dropna_num (to_numeric_series (column (df_work True
       [(''Nome'', [PyStr ''Ana'', PyStr ''Rui'']), (''Nota'', [PyStr ''4,5'', PyStr ''x''])]) ''Nota''))
       = map Fin [9 / 2]
   \<and> means True
       [(''Nome'', [PyStr ''Ana'', PyStr ''Rui'']), (''Nota'', [PyStr ''4,5'', PyStr ''x''])]
       [(Whole ''Nota'', Some (Fin (9 / 2)))]
   \<and> (Whole ''Nota'', Some (Fin (9 / 2))) \<in> set [(Whole ''Nota'', Some (Fin (9 / 2)))]"
proof -
  let ?df = "[(''Nome'', [PyStr ''Ana'', PyStr ''Rui'']), (''Nota'', [PyStr ''4,5'', PyStr ''x''])]"
  have w: "df_work True ?df = [(''Nota'', [PyStr ''4,5'', PyStr ''x''])]"
    by (simp add: frame_eval name_eval)
  have n: "numeric_cols True ?df = [''Nota'']"
    unfolding numeric_cols_def w
    by (simp add: notna_mean_def unique_def columns_def column_def num_eval)
  have p: "dropna_num (to_numeric_series (column (df_work True ?df) ''Nota'')) = map Fin [9 / 2]"
    unfolding w by (simp add: column_def num_eval)
  have r: "means_rows True ?df = [(Whole ''Nota'', Some (Fin (9 / 2)))]"
    unfolding means_rows_def n w
    by (simp add: mean_eval column_def nice_col_def num_eval)
  have m: "means True ?df [(Whole ''Nota'', Some (Fin (9 / 2)))]"
    unfolding means_def n r by (simp add: sort_values_desc_def)
  show ?thesis
    using numeric_indicator_test[where df = ?df and c = "''Nota''" and h = True
        and out = "[(Whole ''Nota'', Some (Fin (9 / 2)))]" and ys = "[9 / 2]"] w n p m
    by (simp add: columns_def wf_frame_def df_empty_def)
qed




subsection \<open>Frequencies and comments\<close>




text \<open>
  C9, in the form that holds of the program. Without a comment column the section is one informational message.
  Otherwise it is one block per comment column: the name, then the cleaned texts of the
  non-missing cells in row order, at most \<open>max_comments\<close> of them, or the no-comments
  line when every cell is missing, then a divider. Where this departs from the specification: a cell that cleans to
  the empty text is still listed, and such a column does not show the no-comments line.
\<close>

theorem comments_listing:
  "(comment_cols df = [] \<longrightarrow> comments_section df m = [Info no_comment_cols_text])
   \<and> (comment_cols df \<noteq> [] \<longrightarrow>
        comments_section df m = concat (map (comment_block df m) (comment_cols df)))
   \<and> comment_block df m c =
        Markdown_bold (nice_col c)
        # (if dropna (column df c) = [] then [Write no_comments_text]
           else map (\<lambda>v. Write (''- '' @ clean_text (PyStr (py_str v))))
                  (take m (dropna (column df c))))
        @ [Divider]
   \<and> length (comment_block df m c) \<le> m + 2 + (if dropna (column df c) = [] then 1 else 0)"
proof -
  have blk: "comment_block df m c =
        Markdown_bold (nice_col c)
        # (if dropna (column df c) = [] then [Write no_comments_text]
           else map (\<lambda>v. Write (''- '' @ clean_text (PyStr (py_str v))))
                  (take m (dropna (column df c))))
        @ [Divider]"
    by (simp add: comment_block_def cleaned_def Let_def take_map comp_def)
  have len: "length (comment_block df m c) \<le> m + 2 + (if dropna (column df c) = [] then 1 else 0)"
    unfolding blk by simp
  show ?thesis using blk len by (simp add: comments_section_def)
qed

theorem comments_listing_witness:
  "comment_cols [(''Nota'', [PyInt 5])] = []
   \<and> comments_section [(''Nota'', [PyInt 5])] 30 = [Info no_comment_cols_text]
   \<and> comment_cols [(''Sugest'' @ [CHR 0xF5] @ ''es'', [PyNaN, PyStr (''  mais  aulas'' @ [CHR 0x0A])]),
                    (''Obs'', [PyNaN])] \<noteq> []
   \<and> comments_section [(''Sugest'' @ [CHR 0xF5] @ ''es'', [PyNaN, PyStr (''  mais  aulas'' @ [CHR 0x0A])]),
                        (''Obs'', [PyNaN])] 30
       = [Markdown_bold (Whole (''Sugest'' @ [CHR 0xF5] @ ''es'')), Write ''- mais aulas'', Divider]"
proof -
  let ?df = "[(''Sugest'' @ [CHR 0xF5] @ ''es'', [PyNaN, PyStr (''  mais  aulas'' @ [CHR 0x0A])]),
              (''Obs'', [PyNaN])]"
  have a: "comment_cols [(''Nota'', [PyInt 5])] = []"
    by (simp add: comment_cols_def columns_def name_eval)
  have b: "comment_cols ?df = [''Sugest'' @ [CHR 0xF5] @ ''es'']"
    by (simp add: comment_cols_def columns_def name_eval)
  have c: "comment_block ?df 30 (''Sugest'' @ [CHR 0xF5] @ ''es'')
       = [Markdown_bold (Whole (''Sugest'' @ [CHR 0xF5] @ ''es'')), Write ''- mais aulas'', Divider]"
    by (simp add: comment_block_def cleaned_def frame_eval text_eval)
  show ?thesis
    using comments_listing[where df = "[(''Nota'', [PyInt 5])]" and m = 30]
      comments_listing[where df = ?df and m = 30] a b c
    by simp
qed

text \<open>C9 as stated fails on a comment cell holding one blank: the comment is listed
  as an empty bullet, and the no-comments line is not shown.\<close>

theorem comments_blank_counterexample:
  "cleaned [(''Feedback'', [PyStr '' ''])] ''Feedback'' = [[]]
   \<and> comments_section [(''Feedback'', [PyStr '' ''])] 30
       = [Markdown_bold (Whole ''Feedback''), Write ''- '', Divider]"
proof -
  have a: "cleaned [(''Feedback'', [PyStr '' ''])] ''Feedback'' = [[]]"
    by (simp add: cleaned_def frame_eval text_eval)
  have b: "comment_cols [(''Feedback'', [PyStr '' ''])] = [''Feedback'']"
    by (simp add: comment_cols_def columns_def name_eval)
  have "comments_section [(''Feedback'', [PyStr '' ''])] 30
       = [Markdown_bold (Whole ''Feedback''), Write ''- '', Divider]"
    by (simp add: comments_section_def b comment_block_def a nice_col_def)
  with a show ?thesis by simp
qed

subsection \<open>Which columns reach which section\<close>

text \<open>
  C1 holds for the numeric indicators, the categorical questions and the raw table,
  and not for the comments: \<open>comment_cols\<close> is read from \<open>df\<close>, not from \<open>df_work\<close>,
  and has no test for identifying names. With anonymization on, a column named
  \<open>Feedback por e-mail\<close> is identifying, is dropped from \<open>df_work\<close>, and its cells are
  listed by the comment section all the same.
\<close>

theorem identifying_column_in_comments:
  "is_email_col ''Feedback por e-mail''
   \<and> columns (df_work True
        [(''Feedback por e-mail'', [PyStr ''Ana Souza, turma B'']), (''Nota'', [PyInt 5])])
       = [''Nota'']
   \<and> comment_cols [(''Feedback por e-mail'', [PyStr ''Ana Souza, turma B'']), (''Nota'', [PyInt 5])]
       = [''Feedback por e-mail'']
   \<and> comments_section
        [(''Feedback por e-mail'', [PyStr ''Ana Souza, turma B'']), (''Nota'', [PyInt 5])] 30
       = [Markdown_bold (Whole ''Feedback por e-mail''), Write ''- Ana Souza, turma B'', Divider]"
proof -
  let ?df = "[(''Feedback por e-mail'', [PyStr ''Ana Souza, turma B'']), (''Nota'', [PyInt 5])]"
  have a: "is_email_col ''Feedback por e-mail''" by (simp add: name_eval)
  have b: "columns (df_work True ?df) = [''Nota'']" by (simp add: frame_eval name_eval)
  have c: "comment_cols ?df = [''Feedback por e-mail'']"
    by (simp add: comment_cols_def columns_def name_eval)
  have d: "cleaned ?df ''Feedback por e-mail'' = [''Ana Souza, turma B'']"
    by (simp add: cleaned_def frame_eval text_eval)
  have e: "comments_section ?df 30
       = [Markdown_bold (Whole ''Feedback por e-mail''), Write ''- Ana Souza, turma B'', Divider]"
    by (simp add: comments_section_def c comment_block_def d nice_col_def)
  from a b c e show ?thesis by blast
qed

text \<open>
  What does hold of C1: with anonymization on, an identifying column is in none of the
  columns of \<open>df_work\<close> (the input of the numeric indicators and the raw table, when
  that is shown), the numeric columns and the categorical columns; and a column named
  \<open>E-mail\<close> is no comment column either.
\<close>

theorem identifying_columns_dropped:
  "(is_email_col c \<or> is_name_col c \<longrightarrow>
      c \<notin> set (columns (df_work True df))
      \<and> c \<notin> set (numeric_cols True df)
      \<and> c \<notin> set (textual_cols True df)
      \<and> (raw_table True show_raw df = None \<or> raw_table True show_raw df = Some (df_work True df)))
   \<and> is_email_col ''E-mail'' \<and> \<not> is_comment_col ''E-mail''
   \<and> ''E-mail'' \<notin> set (comment_cols df)"
proof -
  have a: "c \<notin> set (columns (df_work True df)) \<and> c \<notin> set (numeric_cols True df)
      \<and> c \<notin> set (textual_cols True df)" if "is_email_col c \<or> is_name_col c"
  proof -
    have w: "c \<notin> set (columns (df_work True df))" using that by (rule identifying_not_in_df_work)
    then have n: "c \<notin> set (numeric_cols True df)" by (simp add: in_numeric_cols_iff)
    have t: "c \<notin> set (textual_cols True df)" using that by (simp add: textual_cols_def)
    from w n t show ?thesis by blast
  qed
  have b: "raw_table True show_raw df = None \<or> raw_table True show_raw df = Some (df_work True df)"
    by (simp add: raw_table_def)
  have c: "is_email_col ''E-mail''" "\<not> is_comment_col ''E-mail''" by (simp_all add: name_eval)
  then have d: "''E-mail'' \<notin> set (comment_cols df)" by (simp add: comment_cols_def)
  from a b c d show ?thesis by blast
qed

theorem identifying_columns_dropped_witness:
  "is_name_col ''Seu nome''
   \<and> columns (df_work True [(''Seu nome'', [PyStr ''Ana'']), (''E-mail'', [PyStr ''a@b.co'']), (''Curso'', [PyStr ''x''])])
       = [''Curso'']
   \<and> ''Seu nome'' \<notin> set (textual_cols True [(''Seu nome'', [PyStr ''Ana'']), (''E-mail'', [PyStr ''a@b.co'']), (''Curso'', [PyStr ''x''])])
   \<and> ''Seu nome'' \<notin> set (numeric_cols True [(''Seu nome'', [PyStr ''Ana'']), (''E-mail'', [PyStr ''a@b.co'']), (''Curso'', [PyStr ''x''])])"
proof -
  let ?df = "[(''Seu nome'', [PyStr ''Ana'']), (''E-mail'', [PyStr ''a@b.co'']), (''Curso'', [PyStr ''x''])]"
  have a: "is_name_col ''Seu nome''" by (simp add: name_eval)
  have b: "columns (df_work True ?df) = [''Curso'']" by (simp add: frame_eval name_eval)
  show ?thesis
    using identifying_columns_dropped[where c = "''Seu nome''" and df = ?df] a b by simp
qed

text \<open>
  C5 holds for the categorical columns and not for the numeric ones: the loop that
  builds \<open>numeric_cols\<close> never looks at \<open>ts_col\<close>. A timestamp column whose cells are
  day numbers is a numeric indicator, with a mean.
\<close>

theorem timestamp_column_numeric:
  "guess_timestamp_col (columns [(''Carimbo de data/hora'', [PyObj ''45413.5'', PyObj ''45414.25''])])
       = Some ''Carimbo de data/hora''
   \<and> numeric_cols True [(''Carimbo de data/hora'', [PyObj ''45413.5'', PyObj ''45414.25''])]
       = [''Carimbo de data/hora'']
   \<and> means_rows True [(''Carimbo de data/hora'', [PyObj ''45413.5'', PyObj ''45414.25''])]
       = [(Whole ''Carimbo de data/hora'', Some (Fin (363311 / 8)))]"
proof -
  let ?df = "[(''Carimbo de data/hora'', [PyObj ''45413.5'', PyObj ''45414.25''])]"
  have g: "guess_timestamp_col (columns ?df) = Some ''Carimbo de data/hora''"
    by (simp add: columns_def name_eval)
  have w: "df_work True ?df = ?df" by (simp add: frame_eval name_eval)
  have n: "numeric_cols True ?df = [''Carimbo de data/hora'']"
    unfolding numeric_cols_def w
    by (simp add: notna_mean_def unique_def columns_def column_def num_eval)
  have r: "means_rows True ?df = [(Whole ''Carimbo de data/hora'', Some (Fin (363311 / 8)))]"
    unfolding means_rows_def n w
    by (simp add: mean_eval column_def nice_col_def num_eval)
  from g n r show ?thesis by blast
qed

text \<open>What does hold of C5: the timestamp column is never a categorical column.\<close>

theorem timestamp_not_textual:
  "guess_timestamp_col (columns df) = Some c \<longrightarrow> c \<notin> set (textual_cols h df)"
  by (simp add: textual_cols_def)

theorem timestamp_not_textual_witness:
  "guess_timestamp_col (columns [(''Timestamp'', [PyStr ''2024-05-01 10:00:00'']), (''Curso'', [PyStr ''x''])])
     = Some ''Timestamp''
   \<and> ''Timestamp'' \<notin> set (textual_cols True [(''Timestamp'', [PyStr ''2024-05-01 10:00:00'']), (''Curso'', [PyStr ''x''])])"
proof -
  let ?df = "[(''Timestamp'', [PyStr ''2024-05-01 10:00:00'']), (''Curso'', [PyStr ''x''])]"
  have g: "guess_timestamp_col (columns ?df) = Some ''Timestamp''"
    by (simp add: columns_def name_eval)
  show ?thesis using timestamp_not_textual[where df = ?df and c = "''Timestamp''" and h = True] g by simp
qed

end
